theory Spec2Isabelle
  imports Complex_Main "HOL-Library.Log_Nat"
begin

section \<open>Python values used by \<open>lab2/main.py\<close>\<close>

text \<open>
  Exceptions are values. \<open>ValueError\<close>, \<open>ZeroDivisionError\<close>, \<open>OverflowError\<close>,
  \<open>TypeError\<close>, \<open>IndexError\<close> and \<open>UnicodeEncodeError\<close> are the Python built-ins.
  The two \<open>HTTPException(status_code=400, ...)\<close> raised by the endpoints are kept apart
  by their detail text: \<open>ConfigurationError\<close> is the one of line 101 (detail \<open>str(e)\<close> of
  the caught \<open>ValueError\<close>), \<open>UninitializedError\<close> the one of lines 108 and 119.
\<close>

datatype error =
    ValueError
  | ZeroDivisionError
  | OverflowError
  | TypeError
  | IndexError
  | UnicodeEncodeError
  | ConfigurationError
  | UninitializedError

subsection \<open>Floats: binary64 with round-to-nearest-even, as exact rationals\<close>

text \<open>
  A finite double is the rational it denotes. \<open>round_half_even\<close> is also what Python's
  one-argument \<open>round\<close> does on a float.
\<close>

definition round_half_even :: "rat \<Rightarrow> int" where
  "round_half_even x =
     (let f = \<lfloor>x\<rfloor>; d = x - of_int f
      in if d < 1 / 2 then f
         else if 1 / 2 < d then f + 1
         else if even f then f else f + 1)"

text \<open>For \<open>0 < x\<close>, the exponent \<open>e\<close> with \<open>2 powi e \<le> x < 2 powi (e + 1)\<close>.\<close>

definition floor_log2 :: "rat \<Rightarrow> int" where
  "floor_log2 x =
     (let (p, q) = quotient_of x; d = bitlen p - bitlen q
      in if 2 powi d \<le> x then d else d - 1)"

text \<open>
  Rounding a rational to the nearest double, ties to even: 53 significant bits, and a
  fixed exponent \<open>-1074\<close> in the subnormal range. No upper bound on the exponent: the
  callers test for overflow.
\<close>

definition double_rnd :: "rat \<Rightarrow> rat" where
  "double_rnd x =
     (if x = 0 then 0
      else let a = \<bar>x\<bar>;
               e = max (floor_log2 a - 52) (- 1074);
               r = round_half_even (a / 2 powi e)
           in sgn x * of_int r * 2 powi e)"

text \<open>\<open>int / int\<close>: the correctly rounded quotient, or an exception.\<close>

definition py_truediv :: "int \<Rightarrow> int \<Rightarrow> error + rat" where
  "py_truediv a b =
     (if b = 0 then Inl ZeroDivisionError
      else let q = double_rnd (of_int a / of_int b)
           in if 2 ^ 1024 \<le> \<bar>q\<bar> then Inl OverflowError else Inr q)"

text \<open>\<open>math.log(2)\<close> is the double \<open>0x1.62e42fefa39efp-1\<close>.\<close>

definition math_log_2 :: rat where
  "math_log_2 = 6243314768165359 / 2 ^ 53"

text \<open>\<open>float * float\<close>; with a factor below 1, as here, the product cannot overflow.\<close>

definition float_mul :: "rat \<Rightarrow> rat \<Rightarrow> rat" where
  "float_mul x y = double_rnd (x * y)"

text \<open>\<open>str(k)\<close> for a non-negative integer.\<close>

fun str_nat :: "nat \<Rightarrow> string" where
  "str_nat n =
     (if n < 10 then [char_of (48 + n)]
      else str_nat (n div 10) @ [char_of (48 + n mod 10)])"

declare str_nat.simps [simp del]

text \<open>\<open>range(k)\<close> for an integer \<open>k\<close>: empty when \<open>k \<le> 0\<close>.\<close>

definition py_range :: "int \<Rightarrow> nat list" where
  "py_range k = [0 ..< nat k]"


subsection \<open>The libraries: \<open>bitarray\<close> and \<open>hashlib\<close>\<close>

text \<open>
  \<open>bitarray(n)\<close> followed by \<open>setall(0)\<close>. The length is first converted to a
  signed 64-bit index, which raises \<open>OverflowError\<close> outside \<open>[-2^63, 2^63)\<close>; a
  negative length then raises \<open>ValueError\<close>; otherwise the result is \<open>n\<close> zero bits.
  Running out of memory is not part of the model.
\<close>

definition bitarray :: "int \<Rightarrow> error + bool list" where
  "bitarray n =
     (if n < - (2 ^ 63) \<or> 2 ^ 63 \<le> n then Inl OverflowError
      else if n < 0 then Inl ValueError
      else Inr (replicate (nat n) False))"

text \<open>Indexing a bit array with a Python integer: negative indices count from the end.\<close>

definition norm_index :: "bool list \<Rightarrow> int \<Rightarrow> error + nat" where
  "norm_index bits i =
     (if 0 \<le> i
      then (if i < int (length bits) then Inr (nat i) else Inl IndexError)
      else (if 0 \<le> int (length bits) + i then Inr (nat (int (length bits) + i))
            else Inl IndexError))"

definition getitem :: "bool list \<Rightarrow> int \<Rightarrow> error + bool" where
  "getitem bits i = (case norm_index bits i of Inl e \<Rightarrow> Inl e | Inr j \<Rightarrow> Inr (bits ! j))"

definition setitem_1 :: "bool list \<Rightarrow> int \<Rightarrow> error + bool list" where
  "setitem_1 bits i =
     (case norm_index bits i of Inl e \<Rightarrow> Inl e | Inr j \<Rightarrow> Inr (bits[j := True]))"

text \<open>
  \<open>hashlib\<close> is a parameter of the model. \<open>algorithms_available\<close> is the set of that
  name; \<open>hexdigest_int algorithm s\<close> stands for
  \<open>int(hashlib.new(algorithm, s.encode('utf-8')).hexdigest(), 16)\<close>, a non-negative
  integer, or the exception one of these calls raises (\<open>hexdigest()\<close> of the \<open>shake\<close>
  algorithms wants a length; \<open>encode\<close> refuses lone surrogates). A Python \<open>str\<close> is
  modelled as a \<open>string\<close>.
\<close>

record hashlib =
  algorithms_available :: "string set"
  hexdigest_int :: "string \<Rightarrow> string \<Rightarrow> error + nat"

section \<open>\<open>class BloomFilter\<close>\<close>

text \<open>
  The attributes of an instance. Each closure in \<open>self.hash_functions\<close> is determined
  by the algorithm name it captured (it reads \<open>self.size\<close> when called), so the list of
  closures is the list of these names.
\<close>

record BloomFilter =
  size_bf :: int
  number_expected_elements :: int
  bloom_filter :: "bool list"
  number_hash_functions :: int
  hash_functions :: "string list"

text \<open>Line 27: \<open>round((self.size / self.number_expected_elements) * math.log(2))\<close>.\<close>

definition optimal_number_hash_functions :: "int \<Rightarrow> int \<Rightarrow> error + int" where
  "optimal_number_hash_functions sz n =
     (case py_truediv sz n of
        Inl e \<Rightarrow> Inl e
      | Inr q \<Rightarrow> Inr (round_half_even (float_mul q math_log_2)))"

text \<open>Lines 36 to 48: the loop that checks each name and appends its closure.\<close>

fun create_hash_funcs :: "string set \<Rightarrow> string list \<Rightarrow> error + string list" where
  "create_hash_funcs supported_hashes [] = Inr []"
| "create_hash_funcs supported_hashes (name # names) =
     (if name \<notin> supported_hashes then Inl ValueError
      else case create_hash_funcs supported_hashes names of
             Inl e \<Rightarrow> Inl e
           | Inr fs \<Rightarrow> Inr (name # fs))"

text \<open>\<open>BloomFilter.__init__\<close>; the optional argument is \<open>None\<close> or \<open>Some\<close> list.\<close>

definition BloomFilter_init ::
  "hashlib \<Rightarrow> int \<Rightarrow> int \<Rightarrow> string list option \<Rightarrow> error + BloomFilter" where
  "BloomFilter_init H sz n hash_function_names =
     (case bitarray sz of
        Inl e \<Rightarrow> Inl e
      | Inr bits \<Rightarrow>
          (case optimal_number_hash_functions sz n of
             Inl e \<Rightarrow> Inl e
           | Inr k \<Rightarrow>
               (let names = (case hash_function_names of
                               None \<Rightarrow> [''md5'']
                             | Some ns \<Rightarrow> ns)
                in case create_hash_funcs (algorithms_available H) names of
                     Inl e \<Rightarrow> Inl e
                   | Inr fs \<Rightarrow>
                       Inr \<lparr>size_bf = sz, number_expected_elements = n,
                            bloom_filter = bits, number_hash_functions = k,
                            hash_functions = fs\<rparr>)))"

text \<open>The closure \<open>hash_func\<close> of lines 42 to 45, for the captured \<open>algorithm\<close>.\<close>

definition hash_func :: "hashlib \<Rightarrow> BloomFilter \<Rightarrow> string \<Rightarrow> string \<Rightarrow> error + int" where
  "hash_func H self algorithm s =
     (case hexdigest_int H algorithm s of
        Inl e \<Rightarrow> Inl e
      | Inr d \<Rightarrow>
          if size_bf self = 0 then Inl ZeroDivisionError
          else Inr (int d mod size_bf self))"

text \<open>\<open>BloomFilter._hash\<close> (an Isabelle name cannot start with an underscore).\<close>

definition BloomFilter_hash :: "hashlib \<Rightarrow> BloomFilter \<Rightarrow> string \<Rightarrow> nat \<Rightarrow> error + int" where
  "BloomFilter_hash H self item k =
     (if length (hash_functions self) = 0 then Inl ZeroDivisionError
      else hash_func H self (hash_functions self ! (k mod length (hash_functions self)))
             (item @ str_nat k))"

text \<open>
  \<open>add_to_filter\<close>: the loop over the rounds still to do. The instance is mutated in
  place, so the bits set before an exception stay set: the instance is returned with the
  exception, if any.
\<close>

fun add_rounds ::
  "hashlib \<Rightarrow> BloomFilter \<Rightarrow> string \<Rightarrow> nat list \<Rightarrow> error option \<times> BloomFilter" where
  "add_rounds H self item [] = (None, self)"
| "add_rounds H self item (i # rounds) =
     (case BloomFilter_hash H self item i of
        Inl e \<Rightarrow> (Some e, self)
      | Inr index \<Rightarrow>
          (case setitem_1 (bloom_filter self) index of
             Inl e \<Rightarrow> (Some e, self)
           | Inr bits \<Rightarrow> add_rounds H (self\<lparr>bloom_filter := bits\<rparr>) item rounds))"

definition add_to_filter :: "hashlib \<Rightarrow> BloomFilter \<Rightarrow> string \<Rightarrow> error option \<times> BloomFilter" where
  "add_to_filter H self item = add_rounds H self item (py_range (number_hash_functions self))"

text \<open>\<open>check_is_not_in_filter\<close>: \<open>True\<close> at the first zero bit, \<open>False\<close> after the loop.\<close>

fun check_rounds :: "hashlib \<Rightarrow> BloomFilter \<Rightarrow> string \<Rightarrow> nat list \<Rightarrow> error + bool" where
  "check_rounds H self item [] = Inr False"
| "check_rounds H self item (i # rounds) =
     (case BloomFilter_hash H self item i of
        Inl e \<Rightarrow> Inl e
      | Inr index \<Rightarrow>
          (case getitem (bloom_filter self) index of
             Inl e \<Rightarrow> Inl e
           | Inr b \<Rightarrow> if \<not> b then Inr True else check_rounds H self item rounds))"

definition check_is_not_in_filter :: "hashlib \<Rightarrow> BloomFilter \<Rightarrow> string \<Rightarrow> error + bool" where
  "check_is_not_in_filter H self item =
     check_rounds H self item (py_range (number_hash_functions self))"

section \<open>The endpoints and the global \<open>bloom_filter\<close>\<close>

text \<open>
  The request body of \<open>/init\<close> (the fields of \<open>BloomFilterConfig\<close>, prefixed to keep
  them apart from the attributes of the instance). All three fields are required, so
  the constructor never sees \<open>None\<close> from here.
\<close>

record BloomFilterConfig =
  cfg_size :: int
  cfg_number_expected_elements :: int
  cfg_hash_function_names :: "string list"

text \<open>The four success messages.\<close>

datatype response = Initialized | Added string | DefinitelyAbsent string | PossiblyPresent string

text \<open>
  The module-level variable \<open>bloom_filter\<close> is \<open>None\<close> or an instance. Each endpoint
  returns its response or exception together with the value of the variable afterwards.
\<close>

type_synonym global = "BloomFilter option"

definition init_bloom_filter ::
  "hashlib \<Rightarrow> BloomFilterConfig \<Rightarrow> global \<Rightarrow> (error + response) \<times> global" where
  "init_bloom_filter H config g =
     (case BloomFilter_init H (cfg_size config) (cfg_number_expected_elements config)
             (Some (cfg_hash_function_names config)) of
        Inr bf \<Rightarrow> (Inr Initialized, Some bf)
      | Inl ValueError \<Rightarrow> (Inl ConfigurationError, g)
      | Inl e \<Rightarrow> (Inl e, g))"

definition add_item :: "hashlib \<Rightarrow> string \<Rightarrow> global \<Rightarrow> (error + response) \<times> global" where
  "add_item H key g =
     (case g of
        None \<Rightarrow> (Inl UninitializedError, g)
      | Some bf \<Rightarrow>
          (case add_to_filter H bf key of
             (Some e, bf') \<Rightarrow> (Inl e, Some bf')
           | (None, bf') \<Rightarrow> (Inr (Added key), Some bf')))"

definition check_item :: "hashlib \<Rightarrow> string \<Rightarrow> global \<Rightarrow> (error + response) \<times> global" where
  "check_item H key g =
     (case g of
        None \<Rightarrow> (Inl UninitializedError, g)
      | Some bf \<Rightarrow>
          (case check_is_not_in_filter H bf key of
             Inl e \<Rightarrow> (Inl e, g)
           | Inr True \<Rightarrow> (Inr (DefinitelyAbsent key), g)
           | Inr False \<Rightarrow> (Inr (PossiblyPresent key), g)))"

text \<open>A request, and running a list of requests from a value of the global.\<close>

datatype request = Init BloomFilterConfig | Add string | Check string

fun handle :: "hashlib \<Rightarrow> request \<Rightarrow> global \<Rightarrow> (error + response) \<times> global" where
  "handle H (Init config) g = init_bloom_filter H config g"
| "handle H (Add key) g = add_item H key g"
| "handle H (Check key) g = check_item H key g"

fun run :: "hashlib \<Rightarrow> request list \<Rightarrow> global \<Rightarrow> (error + response) list \<times> global" where
  "run H [] g = ([], g)"
| "run H (r # rs) g =
     (let (out, g') = handle H r g; (outs, g'') = run H rs g' in (out # outs, g''))"

text \<open>Adding a list of keys one after the other, whatever each call raises.\<close>

fun add_all :: "hashlib \<Rightarrow> BloomFilter \<Rightarrow> string list \<Rightarrow> BloomFilter" where
  "add_all H self [] = self"
| "add_all H self (key # keys) = add_all H (snd (add_to_filter H self key)) keys"

subsection \<open>The filter as the specification describes it\<close>

text \<open>
  Written from the words of the specification, without the instance and its loops: the
  index of a key in a round (the digest under \<open>names[r mod len(names)]\<close> of the key
  followed by the round number, modulo the capacity); whether the digests of all rounds
  of a key are computed; the bit array after a list of keys has been added to a fresh
  filter (bit \<open>j\<close> is set when \<open>j\<close> is the index of some key in some round); and the
  answer for a key (it may be present when each of its indices is such a \<open>j\<close>).
\<close>

definition spec_index :: "hashlib \<Rightarrow> string list \<Rightarrow> int \<Rightarrow> string \<Rightarrow> nat \<Rightarrow> nat" where
  "spec_index H names m item r =
     nat (int (projr (hexdigest_int H (names ! (r mod length names)) (item @ str_nat r))) mod m)"

definition digests_computed :: "hashlib \<Rightarrow> string list \<Rightarrow> nat \<Rightarrow> string \<Rightarrow> bool" where
  "digests_computed H names k item =
     list_all (\<lambda>r. \<not> isl (hexdigest_int H (names ! (r mod length names)) (item @ str_nat r)))
       [0 ..< k]"

definition spec_bits :: "hashlib \<Rightarrow> string list \<Rightarrow> int \<Rightarrow> nat \<Rightarrow> string list \<Rightarrow> bool list" where
  "spec_bits H names m k keys =
     map (\<lambda>j. list_ex (\<lambda>key. list_ex (\<lambda>r. spec_index H names m key r = j) [0 ..< k]) keys)
       [0 ..< nat m]"

definition spec_check ::
  "hashlib \<Rightarrow> string list \<Rightarrow> int \<Rightarrow> nat \<Rightarrow> string list \<Rightarrow> string \<Rightarrow> response" where
  "spec_check H names m k keys q =
     (if list_all
           (\<lambda>r. list_ex
                  (\<lambda>key. list_ex (\<lambda>r'. spec_index H names m key r' = spec_index H names m q r)
                           [0 ..< k])
                  keys)
           [0 ..< k]
      then PossiblyPresent q else DefinitelyAbsent q)"

subsection \<open>A concrete \<open>hashlib\<close> for evaluation\<close>

text \<open>
  The names are those of \<open>hashlib.algorithms_guaranteed\<close>. The digest is a stand-in (a
  polynomial in the bytes, offset by the length of the algorithm's name), not the real
  one: the theorems below hold for every \<open>hashlib\<close>, and this one only lets them be
  evaluated. The \<open>shake\<close> algorithms raise \<open>TypeError\<close>, as \<open>hexdigest()\<close> without a
  length does.
\<close>

definition toy_digest :: "string \<Rightarrow> string \<Rightarrow> error + nat" where
  "toy_digest algorithm s =
     (if algorithm \<in> {''shake_128'', ''shake_256''} then Inl TypeError
      else Inr (foldl (\<lambda>h c. 31 * h + of_char c) (length algorithm) s))"

definition toy_hashlib :: hashlib where
  "toy_hashlib =
     \<lparr>algorithms_available =
        {''md5'', ''sha1'', ''sha224'', ''sha256'', ''sha384'', ''sha512'',
         ''blake2b'', ''blake2s'', ''sha3_224'', ''sha3_256'', ''sha3_384'', ''sha3_512'',
         ''shake_128'', ''shake_256''},
      hexdigest_int = toy_digest\<rparr>"

text \<open>
  Instances and request bodies for evaluation. \<open>example_filter\<close> is what the constructor
  returns for size 10, 1 expected element and the algorithms \<open>md5\<close> and \<open>sha256\<close>.
\<close>

definition example_filter :: BloomFilter where
  "example_filter =
     \<lparr>size_bf = 10, number_expected_elements = 1, bloom_filter = replicate 10 False,
      number_hash_functions = 7, hash_functions = [''md5'', ''sha256'']\<rparr>"

definition example_config_7 :: BloomFilterConfig where
  "example_config_7 =
     \<lparr>cfg_size = 10, cfg_number_expected_elements = 1,
      cfg_hash_function_names = [''sha256'']\<rparr>"

definition example_config_1 :: BloomFilterConfig where
  "example_config_1 =
     \<lparr>cfg_size = 10, cfg_number_expected_elements = 5,
      cfg_hash_function_names = [''md5'']\<rparr>"

section \<open>Facts about the arithmetic and the constructor\<close>

lemma round_half_even_nonneg: "0 \<le> x \<Longrightarrow> 0 \<le> round_half_even x"
  by (simp add: round_half_even_def Let_def)

lemma round_half_even_pos_iff: "1 \<le> round_half_even x \<longleftrightarrow> 1 / 2 < x"
proof (cases "1 / 2 < x")
  case True
  then have f0: "0 \<le> \<lfloor>x\<rfloor>" by simp
  show ?thesis
  proof (cases "\<lfloor>x\<rfloor> = 0")
    case True
    with \<open>1 / 2 < x\<close> show ?thesis by (simp add: round_half_even_def Let_def)
  next
    case False
    with f0 have "1 \<le> \<lfloor>x\<rfloor>" by linarith
    with \<open>1 / 2 < x\<close> show ?thesis by (simp add: round_half_even_def Let_def)
  qed
next
  case False
  then have le: "x \<le> 1 / 2" by simp
  then have "x < 1" by simp
  then have f0: "\<lfloor>x\<rfloor> \<le> 0" by (simp add: floor_le_iff)
  show ?thesis
  proof (cases "\<lfloor>x\<rfloor> = 0")
    case True
    with le False show ?thesis by (simp add: round_half_even_def Let_def)
  next
    case False
    with f0 have "\<lfloor>x\<rfloor> \<le> - 1" by linarith
    moreover from this have "\<lfloor>x\<rfloor> < 0" by linarith
    then have "x < 0" by (rule floor_less_zero [THEN iffD1])
    ultimately show ?thesis using le by (simp add: round_half_even_def Let_def)
  qed
qed

text \<open>
  The rounding model on known values: \<open>1 / 3\<close> and \<open>10.0 * math.log(2)\<close> are the
  doubles that Python prints as fractions with these numerators and denominators.
\<close>

lemma double_rnd_examples:
  "double_rnd (1 / 3) = 6004799503160661 / 18014398509481984"
  "float_mul 10 math_log_2 = 7804143460206699 / 1125899906842624"
  by code_simp+

text \<open>The exponent found by \<open>floor_log2\<close> is the right one, and rounding is monotone enough.\<close>

lemma power_int_2_add: "(2::rat) powi (a + b) = 2 powi a * 2 powi b"
  by (rule power_int_add) simp

lemma power_int_2_diff: "(2::rat) powi (a - b) = 2 powi a / 2 powi b"
  by (rule power_int_diff) simp

lemma power_int_2_mono: "a \<le> b \<Longrightarrow> (2::rat) powi a \<le> 2 powi b"
proof -
  assume "a \<le> b"
  then have "(1::rat) \<le> 2 powi (b - a)" by simp
  then have "(2::rat) powi a * 1 \<le> 2 powi a * 2 powi (b - a)"
    by (intro mult_left_mono) simp_all
  then show ?thesis by (simp add: power_int_2_add [symmetric])
qed

lemma floor_log2_bounds:
  assumes "0 < x"
  shows "2 powi floor_log2 x \<le> x" and "x < 2 powi (floor_log2 x + 1)"
proof -
  obtain p q where pq: "quotient_of x = (p, q)" by (cases "quotient_of x")
  then have q: "0 < q" and x: "x = of_int p / of_int q"
    by (rule quotient_of_denom_pos, rule quotient_of_div)
  with assms have p: "0 < p" by (simp add: zero_less_divide_iff)
  let ?d = "bitlen p - bitlen q"
  have bp: "1 \<le> bitlen p" and bq: "1 \<le> bitlen q"
    using p q by (simp_all add: bitlen_alt_def)
  from bitlen_bounds [OF p] have p1: "(2::rat) ^ nat (bitlen p - 1) \<le> of_int p"
    and p2: "of_int p < (2::rat) ^ nat (bitlen p)"
    by (metis of_int_le_iff of_int_numeral of_int_power, metis of_int_less_iff of_int_numeral of_int_power)
  from bitlen_bounds [OF q] have q1: "(2::rat) ^ nat (bitlen q - 1) \<le> of_int q"
    and q2: "of_int q < (2::rat) ^ nat (bitlen q)"
    by (metis of_int_le_iff of_int_numeral of_int_power, metis of_int_less_iff of_int_numeral of_int_power)
  have P1: "(2::rat) powi (bitlen p - 1) \<le> of_int p" and P2: "of_int p < (2::rat) powi bitlen p"
    and Q1: "(2::rat) powi (bitlen q - 1) \<le> of_int q" and Q2: "of_int q < (2::rat) powi bitlen q"
    using p1 p2 q1 q2 bp bq by (simp_all add: power_int_def)
  have qpos: "(0::rat) < of_int q" using q by simp
  have lo: "2 powi (?d - 1) \<le> x"
  proof -
    have "(2::rat) powi (?d - 1) * of_int q \<le> 2 powi (?d - 1) * 2 powi bitlen q"
      using Q2 by (intro mult_left_mono) simp_all
    also have "\<dots> = 2 powi (bitlen p - 1)"
      by (simp add: power_int_2_add [symmetric])
    also have "\<dots> \<le> of_int p" by (rule P1)
    finally show ?thesis using qpos by (simp add: x pos_le_divide_eq)
  qed
  have hi: "x < 2 powi (?d + 1)"
  proof -
    have "of_int p < (2::rat) powi bitlen p" by (rule P2)
    also have "\<dots> = 2 powi (?d + 1) * 2 powi (bitlen q - 1)"
      by (simp add: power_int_2_add [symmetric])
    also have "\<dots> \<le> 2 powi (?d + 1) * of_int q"
      using Q1 by (intro mult_left_mono) simp_all
    finally show ?thesis using qpos by (simp add: x pos_divide_less_eq)
  qed
  have fl: "floor_log2 x = (if 2 powi ?d \<le> x then ?d else ?d - 1)"
    by (simp add: floor_log2_def pq Let_def)
  show "2 powi floor_log2 x \<le> x" using lo by (simp add: fl)
  show "x < 2 powi (floor_log2 x + 1)" using hi by (auto simp: fl not_le)
qed

lemma round_half_even_ge: "of_int N \<le> x \<Longrightarrow> N \<le> round_half_even x"
proof -
  assume "of_int N \<le> x"
  then have "N \<le> \<lfloor>x\<rfloor>" by (simp add: le_floor_iff)
  then show ?thesis by (simp add: round_half_even_def Let_def)
qed


lemma double_rnd_pos:
  assumes "0 < x"
  shows "double_rnd x =
           of_int (round_half_even (x / 2 powi max (floor_log2 x - 52) (- 1074)))
             * 2 powi max (floor_log2 x - 52) (- 1074)"
  using assms by (simp add: double_rnd_def Let_def)

lemma double_rnd_ge_pow:
  assumes "0 < x" and "- 1022 \<le> floor_log2 x"
  shows "2 powi floor_log2 x \<le> double_rnd x"
proof -
  let ?fl = "floor_log2 x"
  let ?e = "?fl - 52"
  have e: "max (?fl - 52) (- 1074) = ?e" using assms(2) by simp
  have "(2::rat) ^ 52 = 2 powi ?fl / 2 powi ?e"
    by (simp add: power_int_2_diff [symmetric])
  also have "\<dots> \<le> x / 2 powi ?e"
    using floor_log2_bounds(1) [OF assms(1)] by (intro divide_right_mono) simp_all
  finally have "of_int (2 ^ 52) \<le> x / 2 powi ?e" by simp
  then have "2 ^ 52 \<le> round_half_even (x / 2 powi ?e)" by (rule round_half_even_ge)
  then have "(of_int (2 ^ 52) :: rat) \<le> of_int (round_half_even (x / 2 powi ?e))"
    by (simp only: of_int_le_iff)
  then have "of_int (2 ^ 52) * (2::rat) powi ?e
               \<le> of_int (round_half_even (x / 2 powi ?e)) * 2 powi ?e"
    by (intro mult_right_mono) simp_all
  moreover have "of_int (2 ^ 52) * (2::rat) powi ?e = 2 powi ?fl"
    using power_int_2_add [of 52 ?e] by simp
  ultimately have "(2::rat) powi ?fl \<le> of_int (round_half_even (x / 2 powi ?e)) * 2 powi ?e"
    by (simp only:)
  moreover have "double_rnd x = of_int (round_half_even (x / 2 powi ?e)) * 2 powi ?e"
    by (simp only: double_rnd_pos [OF assms(1)] e)
  ultimately show ?thesis by (simp only:)
qed

lemma floor_log2_nonneg:
  assumes "1 \<le> x"
  shows "0 \<le> floor_log2 x"
proof (rule ccontr)
  assume "\<not> 0 \<le> floor_log2 x"
  then have "floor_log2 x + 1 \<le> 0" by simp
  then have "(2::rat) powi (floor_log2 x + 1) \<le> 2 powi 0" by (rule power_int_2_mono)
  moreover from assms have "0 < x" by simp
  then have "x < 2 powi (floor_log2 x + 1)" by (rule floor_log2_bounds(2))
  ultimately show False using assms by simp
qed

lemma double_rnd_ge_1:
  assumes "1 \<le> x"
  shows "1 \<le> double_rnd x"
proof -
  from assms have pos: "0 < x" by simp
  have fl: "0 \<le> floor_log2 x" using assms by (rule floor_log2_nonneg)
  then have "(2::rat) powi 0 \<le> 2 powi floor_log2 x" by (rule power_int_2_mono)
  also have "\<dots> \<le> double_rnd x" using pos fl by (intro double_rnd_ge_pow) simp_all
  finally show ?thesis by simp
qed

lemma math_log_2_bounds: "1 / 2 < math_log_2" "math_log_2 < 1"
  by (simp_all add: math_log_2_def)

lemma float_mul_log_ge:
  assumes "1 \<le> q"
  shows "math_log_2 \<le> float_mul q math_log_2"
proof -
  let ?y = "q * math_log_2"
  have yL: "math_log_2 \<le> ?y" using assms math_log_2_bounds by simp
  then have pos: "0 < ?y" using math_log_2_bounds by simp
  let ?fl = "floor_log2 ?y"
  have lower: "- 1 \<le> ?fl"
  proof (rule ccontr)
    assume "\<not> - 1 \<le> ?fl"
    then have "?fl + 1 \<le> - 1" by simp
    then have "(2::rat) powi (?fl + 1) \<le> 2 powi (- 1)" by (rule power_int_2_mono)
    with floor_log2_bounds(2) [OF pos] have "?y < 1 / 2" by (simp add: power_int_minus)
    with yL math_log_2_bounds show False by linarith
  qed
  show ?thesis
  proof (cases "0 \<le> ?fl")
    case True
    then have "(2::rat) powi 0 \<le> 2 powi ?fl" by (rule power_int_2_mono)
    also have "\<dots> \<le> double_rnd ?y" using pos True by (intro double_rnd_ge_pow) simp_all
    finally show ?thesis using math_log_2_bounds by (simp add: float_mul_def)
  next
    case False
    with lower have fl: "?fl = - 1" by simp
    have p53: "(2::rat) powi (- 53) = 1 / 2 ^ 53"
      by (simp only: power_int_minus_divide) simp
    have "of_int 6243314768165359 = math_log_2 * 2 ^ 53"
      by (simp add: math_log_2_def)
    also have "\<dots> \<le> ?y * 2 ^ 53" using yL by (intro mult_right_mono) simp_all
    also have "\<dots> = ?y / 2 powi (- 53)" by (simp only: p53) simp
    finally have "6243314768165359 \<le> round_half_even (?y / 2 powi (- 53))"
      by (rule round_half_even_ge)
    then have "(of_int 6243314768165359 :: rat) \<le> of_int (round_half_even (?y / 2 powi (- 53)))"
      by (simp only: of_int_le_iff)
    then have "(of_int 6243314768165359 :: rat) * 2 powi (- 53)
                 \<le> of_int (round_half_even (?y / 2 powi (- 53))) * 2 powi (- 53)"
      by (intro mult_right_mono) simp_all
    moreover have "(of_int 6243314768165359 :: rat) * 2 powi (- 53) = math_log_2"
      by (simp only: p53) (simp add: math_log_2_def)
    ultimately have "math_log_2 \<le> of_int (round_half_even (?y / 2 powi (- 53))) * 2 powi (- 53)"
      by (simp only:)
    moreover have "max (?fl - 52) (- 1074) = - 53" by (simp add: fl)
    then have "double_rnd ?y = of_int (round_half_even (?y / 2 powi (- 53))) * 2 powi (- 53)"
      by (simp only: double_rnd_pos [OF pos])
    ultimately show ?thesis by (simp only: float_mul_def)
  qed
qed

lemma rounds_ge_1:
  assumes "0 < n" and "n \<le> m"
  shows "1 \<le> round_half_even (float_mul (double_rnd (of_int m / of_int n)) math_log_2)"
proof -
  from assms have "(1::rat) \<le> of_int m / of_int n" by (simp add: pos_le_divide_eq)
  then have "1 \<le> double_rnd (of_int m / of_int n)" by (rule double_rnd_ge_1)
  then have "math_log_2 \<le> float_mul (double_rnd (of_int m / of_int n)) math_log_2"
    by (rule float_mul_log_ge)
  with math_log_2_bounds(1) have "1 / 2 < float_mul (double_rnd (of_int m / of_int n)) math_log_2"
    by simp
  then show ?thesis by (simp only: round_half_even_pos_iff)
qed

text \<open>Upper bounds: a quotient of a 64-bit integer by a non-zero integer never overflows.\<close>

lemma round_half_even_le: "x \<le> of_int N \<Longrightarrow> round_half_even x \<le> N"
proof -
  assume le: "x \<le> of_int N"
  then have f: "\<lfloor>x\<rfloor> \<le> N" by (simp add: floor_le_iff)
  show ?thesis
  proof (cases "\<lfloor>x\<rfloor> = N")
    case True
    have "of_int \<lfloor>x\<rfloor> \<le> x" by simp
    with True le have "x = of_int N" by simp
    then show ?thesis by (simp add: round_half_even_def)
  next
    case False
    with f have "\<lfloor>x\<rfloor> + 1 \<le> N" by simp
    then show ?thesis by (simp add: round_half_even_def Let_def)
  qed
qed

lemma floor_log2_le:
  assumes "0 < x" and "x \<le> 2 powi b"
  shows "floor_log2 x \<le> b"
proof (rule ccontr)
  assume "\<not> floor_log2 x \<le> b"
  then have "b + 1 \<le> floor_log2 x" by simp
  then have "(2::rat) powi (b + 1) \<le> 2 powi floor_log2 x" by (rule power_int_2_mono)
  also have "\<dots> \<le> x" using assms(1) by (rule floor_log2_bounds(1))
  also have "\<dots> \<le> 2 powi b" by (rule assms(2))
  finally have "(2::rat) powi b * 2 \<le> 2 powi b * 1" by (simp add: power_int_2_add)
  then have "(2::rat) \<le> 1" by (simp only: mult_le_cancel_left_pos zero_less_power_int zero_less_numeral)
  then show False by simp
qed

lemma double_rnd_le_pow:
  assumes "0 < x" and "x \<le> 2 powi b" and "- 1022 \<le> b"
  shows "double_rnd x \<le> 2 powi b"
proof -
  let ?e = "max (floor_log2 x - 52) (- 1074)"
  have fl: "floor_log2 x \<le> b" using assms(1,2) by (rule floor_log2_le)
  with assms(3) have e: "0 \<le> b - ?e" by simp
  have "x / 2 powi ?e \<le> 2 powi b / 2 powi ?e"
    using assms(2) by (intro divide_right_mono) simp_all
  also have "\<dots> = 2 powi (b - ?e)" by (simp only: power_int_2_diff)
  also have "\<dots> = of_int (2 ^ nat (b - ?e))" using e by (simp add: power_int_def)
  finally have "round_half_even (x / 2 powi ?e) \<le> 2 ^ nat (b - ?e)"
    by (rule round_half_even_le)
  then have "(of_int (round_half_even (x / 2 powi ?e)) :: rat) \<le> of_int (2 ^ nat (b - ?e))"
    by (simp only: of_int_le_iff)
  then have "of_int (round_half_even (x / 2 powi ?e)) * (2::rat) powi ?e
               \<le> of_int (2 ^ nat (b - ?e)) * 2 powi ?e"
    by (intro mult_right_mono) simp_all
  also have "of_int (2 ^ nat (b - ?e)) * (2::rat) powi ?e = 2 powi (b - ?e) * 2 powi ?e"
    using e by (simp add: power_int_def)
  also have "\<dots> = 2 powi b" by (simp add: power_int_2_add [symmetric])
  finally show ?thesis by (simp only: double_rnd_pos [OF assms(1)])
qed

lemma abs_double_rnd: "\<bar>double_rnd x\<bar> = double_rnd \<bar>x\<bar>"
proof (cases "x = 0")
  case True
  then show ?thesis by (simp add: double_rnd_def)
next
  case False
  let ?e = "max (floor_log2 \<bar>x\<bar> - 52) (- 1074)"
  let ?r = "round_half_even (\<bar>x\<bar> / 2 powi ?e)"
  have "0 \<le> \<bar>x\<bar> / 2 powi ?e" by simp
  then have r: "0 \<le> ?r" by (rule round_half_even_nonneg)
  have "double_rnd x = sgn x * of_int ?r * 2 powi ?e"
    using False by (simp add: double_rnd_def Let_def)
  then have "\<bar>double_rnd x\<bar> = \<bar>sgn x\<bar> * \<bar>of_int ?r\<bar> * \<bar>(2::rat) powi ?e\<bar>"
    by (simp only: abs_mult)
  also have "\<dots> = of_int ?r * 2 powi ?e" using False r by (simp add: abs_sgn_eq)
  also have "\<dots> = double_rnd \<bar>x\<bar>"
    using False by (simp add: double_rnd_def Let_def)
  finally show ?thesis .
qed

lemma py_truediv_in_range:
  assumes "b \<noteq> 0" and "- (2 ^ 63) \<le> a" and "a < 2 ^ 63"
  shows "py_truediv a b = Inr (double_rnd (of_int a / of_int b))"
proof -
  let ?x = "of_int a / of_int b :: rat"
  have "\<bar>?x\<bar> \<le> 2 powi 63"
  proof -
    from assms(2,3) have "\<bar>a\<bar> \<le> 2 ^ 63" by simp
    then have "(of_int \<bar>a\<bar> :: rat) \<le> of_int (2 ^ 63)" by (simp only: of_int_le_iff)
    then have a: "\<bar>of_int a :: rat\<bar> \<le> 2 ^ 63" by simp
    from assms(1) have "1 \<le> \<bar>b\<bar>" by simp
    then have "(of_int 1 :: rat) \<le> of_int \<bar>b\<bar>" by (simp only: of_int_le_iff)
    then have b: "(1::rat) \<le> \<bar>of_int b\<bar>" by simp
    have "\<bar>?x\<bar> = \<bar>of_int a\<bar> / \<bar>of_int b\<bar>" by (simp only: abs_divide)
    also have "\<dots> \<le> \<bar>of_int a\<bar> / 1" using b by (intro divide_left_mono) simp_all
    finally show ?thesis using a by simp
  qed
  have "\<bar>double_rnd ?x\<bar> \<le> 2 powi 63"
  proof (cases "?x = 0")
    case True
    then show ?thesis by (simp add: double_rnd_def)
  next
    case False
    then have "0 < \<bar>?x\<bar>" by simp
    then have "double_rnd \<bar>?x\<bar> \<le> 2 powi 63"
      using \<open>\<bar>?x\<bar> \<le> 2 powi 63\<close> by (rule double_rnd_le_pow) simp
    then show ?thesis by (simp only: abs_double_rnd)
  qed
  also have "(2::rat) powi 63 < 2 ^ 1024" by simp
  finally have "\<not> 2 ^ 1024 \<le> \<bar>double_rnd ?x\<bar>" by simp
  then show ?thesis using assms(1) by (simp add: py_truediv_def Let_def)
qed

lemma double_rnd_nonneg: "0 \<le> x \<Longrightarrow> 0 \<le> double_rnd x"
  by (auto simp: double_rnd_def Let_def round_half_even_nonneg intro!: mult_nonneg_nonneg)

lemma float_mul_nonneg: "0 \<le> x \<Longrightarrow> 0 \<le> y \<Longrightarrow> 0 \<le> float_mul x y"
  by (simp add: float_mul_def double_rnd_nonneg)

lemma math_log_2_pos: "0 < math_log_2"
  by (simp add: math_log_2_def)

lemma py_truediv_Inr_nonneg:
  "py_truediv a b = Inr q \<Longrightarrow> 0 \<le> a \<Longrightarrow> 0 < b \<Longrightarrow> 0 \<le> q"
  by (auto simp: py_truediv_def Let_def double_rnd_nonneg split: if_splits)

lemma py_truediv_Inr_eq:
  "py_truediv a b = Inr q \<Longrightarrow> q = double_rnd (of_int a / of_int b)"
  by (auto simp: py_truediv_def Let_def split: if_splits)

lemma py_truediv_not_ValueError: "py_truediv a b \<noteq> Inl ValueError"
  by (simp add: py_truediv_def Let_def)

lemma optimal_not_ValueError: "optimal_number_hash_functions sz n \<noteq> Inl ValueError"
  by (auto simp: optimal_number_hash_functions_def py_truediv_def Let_def split: sum.splits if_splits)

lemma create_hash_funcs_eq:
  "create_hash_funcs S names = (if set names \<subseteq> S then Inr names else Inl ValueError)"
  by (induction names) auto

lemma BloomFilter_init_Some:
  "BloomFilter_init H sz n (Some names) =
     (if sz < - (2 ^ 63) \<or> 2 ^ 63 \<le> sz then Inl OverflowError
      else if sz < 0 then Inl ValueError
      else case optimal_number_hash_functions sz n of
             Inl e \<Rightarrow> Inl e
           | Inr k \<Rightarrow>
               if set names \<subseteq> algorithms_available H
               then Inr \<lparr>size_bf = sz, number_expected_elements = n,
                         bloom_filter = replicate (nat sz) False,
                         number_hash_functions = k, hash_functions = names\<rparr>
               else Inl ValueError)"
  by (simp add: BloomFilter_init_def bitarray_def create_hash_funcs_eq split: sum.splits)

lemma py_truediv_1000_100: "py_truediv 1000 100 = Inr 10"
  by code_simp

lemma optimal_1000_100: "optimal_number_hash_functions 1000 100 = Inr 7"
  by code_simp

lemma optimal_1_100: "optimal_number_hash_functions 1 100 = Inr 0"
  by code_simp

lemma exp_13_80: "exp (13 / 80 :: real) \<le> 1 + 13 / 80 + (13 / 80)\<^sup>2"
  by (rule exp_bound) simp_all

lemma ln_2_lower: "13 / 20 < ln (2 :: real)"
proof -
  have "exp (13 / 20 :: real) = exp (13 / 80) ^ 4"
    by (simp add: exp_of_nat_mult [symmetric])
  also have "\<dots> \<le> (1 + 13 / 80 + (13 / 80)\<^sup>2) ^ 4"
    by (rule power_mono [OF exp_13_80]) simp
  also have "\<dots> < 2" by (simp add: power2_eq_square power4_eq_xxxx)
  finally have "exp (13 / 20 :: real) < 2" .
  then show ?thesis using exp_less_cancel_iff [of "13 / 20" "ln (2 :: real)"] by simp
qed

lemma ln_2_upper: "ln (2 :: real) < 3 / 4"
proof -
  have "1 + 3 / 4 + (3 / 4)\<^sup>2 / 2 \<le> exp (3 / 4 :: real)"
    by (rule exp_lower_Taylor_quadratic) simp
  then have "2 < exp (3 / 4 :: real)" by (simp add: power2_eq_square)
  then show ?thesis using exp_less_cancel_iff [of "ln (2 :: real)" "3 / 4"] by simp
qed

lemma round_10_ln_2: "round (1000 / 100 * ln (2 :: real)) = 7"
proof -
  have "\<lfloor>10 * ln (2 :: real) + 1 / 2\<rfloor> = 7"
    using ln_2_lower ln_2_upper by (simp add: floor_eq_iff)
  then show ?thesis by (simp add: round_def)
qed

lemma BloomFilter_init_Inr:
  assumes "BloomFilter_init H sz n names = Inr bf"
  shows "0 \<le> sz"
    and "optimal_number_hash_functions sz n = Inr (number_hash_functions bf)"
    and "size_bf bf = sz"
    and "number_expected_elements bf = n"
    and "bloom_filter bf = replicate (nat sz) False"
    and "hash_functions bf = (case names of None \<Rightarrow> [''md5''] | Some ns \<Rightarrow> ns)"
    and "sz < 2 ^ 63"
  using assms
  by (auto simp: BloomFilter_init_def bitarray_def create_hash_funcs_eq Let_def
           split: sum.splits if_splits option.splits)

lemma optimal_Inr:
  "optimal_number_hash_functions sz n = Inr k \<Longrightarrow>
     n \<noteq> 0 \<and> k = round_half_even (float_mul (double_rnd (of_int sz / of_int n)) math_log_2)"
  by (auto simp: optimal_number_hash_functions_def py_truediv_def Let_def split: sum.splits if_splits)

lemma optimal_10_1: "optimal_number_hash_functions 10 1 = Inr 7"
  by code_simp

section \<open>The claims\<close>

subsection \<open>C2: the number of hash rounds\<close>

text \<open>
  Claim C2 says that the number of rounds of a filter built from a capacity \<open>m > 0\<close> and
  an expected count \<open>n > 0\<close> is at least 1. The constructor rounds and does not clamp:
  with capacity 1 and 100 expected elements it stores 0.
\<close>

theorem hash_round_count_zero_counterexample:
  "(0::int) < 1 \<and> (0::int) < 100 \<and>
   BloomFilter_init toy_hashlib 1 100 (Some [''md5'']) =
     Inr \<lparr>size_bf = 1, number_expected_elements = 100, bloom_filter = [False],
          number_hash_functions = 0, hash_functions = [''md5'']\<rparr>"
  by (simp add: BloomFilter_init_Some optimal_1_100 toy_hashlib_def)

text \<open>
  Claim C2, amended: for \<open>m > 0\<close> and \<open>n > 0\<close>, the stored number of rounds is
  \<open>round((m / n) * math.log(2))\<close> in double arithmetic; it is never negative, it is at
  least 1 exactly when the rounded product is above one half, and so whenever \<open>n \<le> m\<close>.
\<close>

theorem hash_round_count_formula:
  assumes "0 < m" and "0 < n" and "BloomFilter_init H m n names = Inr bf"
  shows "number_hash_functions bf =
           round_half_even (float_mul (double_rnd (of_int m / of_int n)) math_log_2)
       \<and> 0 \<le> number_hash_functions bf
       \<and> (1 \<le> number_hash_functions bf \<longleftrightarrow>
            1 / 2 < float_mul (double_rnd (of_int m / of_int n)) math_log_2)
       \<and> (n \<le> m \<longrightarrow> 1 \<le> number_hash_functions bf)"
proof -
  let ?v = "float_mul (double_rnd (of_int m / of_int n)) math_log_2"
  from assms(3) have "optimal_number_hash_functions m n = Inr (number_hash_functions bf)"
    by (rule BloomFilter_init_Inr)
  then have k: "number_hash_functions bf = round_half_even ?v"
    using optimal_Inr by blast
  from assms(1,2) have "0 \<le> (of_int m / of_int n :: rat)" by simp
  then have "0 \<le> ?v"
    using math_log_2_pos by (intro float_mul_nonneg double_rnd_nonneg) simp_all
  then have "0 \<le> round_half_even ?v" by (rule round_half_even_nonneg)
  moreover have "1 \<le> round_half_even ?v" if "n \<le> m"
    using assms(2) that by (rule rounds_ge_1)
  ultimately show ?thesis using k by (simp add: round_half_even_pos_iff)
qed

text \<open>The hypotheses of the amended C2 hold for capacity 10 and 1 expected element.\<close>

theorem hash_round_count_formula_witness:
  "(0::int) < 10 \<and> (0::int) < 1 \<and>
   BloomFilter_init toy_hashlib 10 1 (Some [''sha256'']) =
     Inr \<lparr>size_bf = 10, number_expected_elements = 1, bloom_filter = replicate 10 False,
          number_hash_functions = 7, hash_functions = [''sha256'']\<rparr> \<and>
   round_half_even (float_mul (double_rnd (of_int 10 / of_int 1)) math_log_2) = 7 \<and>
   1 / 2 < float_mul (double_rnd (of_int 10 / of_int 1)) math_log_2"
proof -
  have i: "BloomFilter_init toy_hashlib 10 1 (Some [''sha256'']) =
     Inr \<lparr>size_bf = 10, number_expected_elements = 1, bloom_filter = replicate 10 False,
          number_hash_functions = 7, hash_functions = [''sha256'']\<rparr>"
    by (simp add: BloomFilter_init_Some optimal_10_1 toy_hashlib_def)
  show ?thesis
    using hash_round_count_formula [of 10 1 toy_hashlib "Some [''sha256'']", OF _ _ i] i
    by simp
qed

subsection \<open>C9: capacity 1000, 100 expected elements, sha256\<close>

text \<open>
  Claim C9: the call \<open>/init\<close> with size 1000, 100 expected elements and the one
  algorithm \<open>sha256\<close> succeeds wherever \<open>hashlib\<close> offers that algorithm, whatever the
  global held before, and the new instance has 7 rounds; 7 is also the value of
  \<open>round((1000 / 100) * ln 2)\<close> over the reals.
\<close>

theorem optimal_round_example:
  assumes "''sha256'' \<in> algorithms_available H"
  shows "init_bloom_filter H
           \<lparr>cfg_size = 1000, cfg_number_expected_elements = 100,
            cfg_hash_function_names = [''sha256'']\<rparr> g =
         (Inr Initialized,
          Some \<lparr>size_bf = 1000, number_expected_elements = 100,
                bloom_filter = replicate 1000 False,
                number_hash_functions = 7, hash_functions = [''sha256'']\<rparr>)
       \<and> round (1000 / 100 * ln (2 :: real)) = 7"
  using assms round_10_ln_2
  by (simp add: init_bloom_filter_def BloomFilter_init_Some optimal_1000_100)

text \<open>The stand-in \<open>hashlib\<close> offers \<open>sha256\<close>.\<close>

theorem optimal_round_example_witness:
  "''sha256'' \<in> algorithms_available toy_hashlib \<and>
   fst (init_bloom_filter toy_hashlib
           \<lparr>cfg_size = 1000, cfg_number_expected_elements = 100,
            cfg_hash_function_names = [''sha256'']\<rparr> None) = Inr Initialized \<and>
   map_option number_hash_functions
     (snd (init_bloom_filter toy_hashlib
           \<lparr>cfg_size = 1000, cfg_number_expected_elements = 100,
            cfg_hash_function_names = [''sha256'']\<rparr> None)) = Some 7"
proof -
  have a: "''sha256'' \<in> algorithms_available toy_hashlib"
    by (simp add: toy_hashlib_def)
  show ?thesis using optimal_round_example [OF a, of None] a by simp
qed

subsection \<open>C5: requests before any successful \<open>/init\<close>\<close>

lemma optimal_10_5: "optimal_number_hash_functions 10 5 = Inr 1"
  by code_simp


lemma init_bloom_filter_fail_global:
  "fst (init_bloom_filter H config g) = Inl e \<Longrightarrow> snd (init_bloom_filter H config g) = g"
  by (auto simp: init_bloom_filter_def split: sum.splits error.splits)

lemma init_bloom_filter_isl:
  "isl (BloomFilter_init H (cfg_size config) (cfg_number_expected_elements config)
          (Some (cfg_hash_function_names config))) \<Longrightarrow>
   snd (init_bloom_filter H config g) = g"
  by (auto simp: init_bloom_filter_def split: sum.splits error.splits)

lemma run_no_init_None:
  assumes "\<forall>config. Init config \<in> set rs \<longrightarrow>
             isl (BloomFilter_init H (cfg_size config) (cfg_number_expected_elements config)
                    (Some (cfg_hash_function_names config)))"
  shows "snd (run H rs None) = None"
  using assms
proof (induction rs)
  case Nil
  then show ?case by simp
next
  case (Cons r rs)
  have "snd (handle H r None) = None"
  proof (cases r)
    case (Init config)
    with Cons.prems show ?thesis by (simp add: init_bloom_filter_isl)
  next
    case (Add key)
    then show ?thesis by (simp add: add_item_def)
  next
    case (Check key)
    then show ?thesis by (simp add: check_item_def)
  qed
  moreover have "snd (run H rs None) = None" using Cons by simp
  ultimately show ?case by (simp add: split_beta Let_def)
qed

text \<open>
  Claim C5: after any requests among which no \<open>/init\<close> succeeded, the global is still
  \<open>None\<close>, and \<open>/add\<close> and \<open>/check\<close> raise the \<open>HTTPException\<close> for the missing
  filter and leave the global \<open>None\<close>.
\<close>

theorem uninitialized_add_check:
  assumes "\<forall>config. Init config \<in> set rs \<longrightarrow>
             isl (BloomFilter_init H (cfg_size config) (cfg_number_expected_elements config)
                    (Some (cfg_hash_function_names config)))"
  shows "snd (run H rs None) = None
       \<and> add_item H key (snd (run H rs None)) = (Inl UninitializedError, None)
       \<and> check_item H key (snd (run H rs None)) = (Inl UninitializedError, None)"
  using run_no_init_None [OF assms] by (simp add: add_item_def check_item_def)

text \<open>Three such requests, the middle one a refused \<open>/init\<close>.\<close>

theorem uninitialized_add_check_witness:
  "run toy_hashlib
     [Add ''a'',
      Init \<lparr>cfg_size = 10, cfg_number_expected_elements = 5,
            cfg_hash_function_names = [''not-a-real-algorithm'']\<rparr>,
      Check ''a''] None =
     ([Inl UninitializedError, Inl ConfigurationError, Inl UninitializedError], None)
   \<and> add_item toy_hashlib ''b''
         (snd (run toy_hashlib
            [Add ''a'',
             Init \<lparr>cfg_size = 10, cfg_number_expected_elements = 5,
                   cfg_hash_function_names = [''not-a-real-algorithm'']\<rparr>,
             Check ''a''] None)) = (Inl UninitializedError, None)
   \<and> check_item toy_hashlib ''b''
         (snd (run toy_hashlib
            [Add ''a'',
             Init \<lparr>cfg_size = 10, cfg_number_expected_elements = 5,
                   cfg_hash_function_names = [''not-a-real-algorithm'']\<rparr>,
             Check ''a''] None)) = (Inl UninitializedError, None)"
proof -
  let ?c = "\<lparr>cfg_size = 10, cfg_number_expected_elements = 5,
            cfg_hash_function_names = [''not-a-real-algorithm'']\<rparr>"
  have f: "BloomFilter_init toy_hashlib 10 5 (Some [''not-a-real-algorithm'']) = Inl ValueError"
    by (simp add: BloomFilter_init_Some toy_hashlib_def optimal_10_5)
  have h: "\<forall>config. Init config \<in> set [Add ''a'', Init ?c, Check ''a''] \<longrightarrow>
             isl (BloomFilter_init toy_hashlib (cfg_size config)
                    (cfg_number_expected_elements config)
                    (Some (cfg_hash_function_names config)))"
    using f by simp
  have r: "run toy_hashlib [Add ''a'', Init ?c, Check ''a''] None =
           ([Inl UninitializedError, Inl ConfigurationError, Inl UninitializedError], None)"
    using f by (simp add: add_item_def check_item_def init_bloom_filter_def)
  show ?thesis
    using uninitialized_add_check [OF h, of "''b''"] r by blast
qed

lemma BloomFilter_hash_cong:
  "size_bf a = size_bf b \<Longrightarrow> hash_functions a = hash_functions b \<Longrightarrow>
   BloomFilter_hash H a item i = BloomFilter_hash H b item i"
  by (auto simp: BloomFilter_hash_def hash_func_def split: sum.splits)

lemma norm_index_cong: "length a = length b \<Longrightarrow> norm_index a i = norm_index b i"
  by (simp add: norm_index_def)

lemma norm_index_less: "norm_index bits i = Inr j \<Longrightarrow> j < length bits"
  by (auto simp: norm_index_def Let_def split: if_splits)

lemma setitem_1_Inr:
  "setitem_1 bits idx = Inr bits' \<Longrightarrow>
     \<exists>j. norm_index bits idx = Inr j \<and> j < length bits \<and> bits' = bits[j := True]"
  by (auto simp: setitem_1_def norm_index_less split: sum.splits)

lemma add_rounds_shape:
  "add_rounds H self item rs = (e, self') \<Longrightarrow>
     size_bf self' = size_bf self \<and> hash_functions self' = hash_functions self \<and>
     number_hash_functions self' = number_hash_functions self \<and>
     number_expected_elements self' = number_expected_elements self \<and>
     length (bloom_filter self') = length (bloom_filter self)"
proof (induction rs arbitrary: self)
  case Nil
  then show ?case by simp
next
  case (Cons i rs)
  show ?case
  proof (cases "BloomFilter_hash H self item i")
    case (Inl e')
    with Cons.prems show ?thesis by simp
  next
    case (Inr idx)
    show ?thesis
    proof (cases "setitem_1 (bloom_filter self) idx")
      case (Inl e')
      with Inr Cons.prems show ?thesis by simp
    next
      case bits: (Inr bits)
      with Inr Cons.prems
      have "add_rounds H (self\<lparr>bloom_filter := bits\<rparr>) item rs = (e, self')" by simp
      from Cons.IH [OF this] setitem_1_Inr [OF bits] show ?thesis by auto
    qed
  qed
qed

lemma add_rounds_mono:
  "add_rounds H self item rs = (e, self') \<Longrightarrow> j < length (bloom_filter self) \<Longrightarrow>
   bloom_filter self ! j \<Longrightarrow> bloom_filter self' ! j"
proof (induction rs arbitrary: self)
  case Nil
  then show ?case by simp
next
  case (Cons i rs)
  show ?case
  proof (cases "BloomFilter_hash H self item i")
    case (Inl e')
    with Cons.prems show ?thesis by simp
  next
    case (Inr idx)
    show ?thesis
    proof (cases "setitem_1 (bloom_filter self) idx")
      case (Inl e')
      with Inr Cons.prems show ?thesis by simp
    next
      case bits: (Inr bits)
      with Inr Cons.prems
      have run: "add_rounds H (self\<lparr>bloom_filter := bits\<rparr>) item rs = (e, self')" by simp
      from setitem_1_Inr [OF bits] obtain j' where
        j': "j' < length (bloom_filter self)" "bits = (bloom_filter self)[j' := True]" by blast
      with Cons.prems(2,3) have "j < length bits" "bits ! j"
        by (simp_all add: nth_list_update)
      with Cons.IH [OF run, of] show ?thesis by simp
    qed
  qed
qed

text \<open>Every round of a completed add has its bit set afterwards.\<close>

lemma add_rounds_sets:
  "add_rounds H self item rs = (None, self') \<Longrightarrow> i \<in> set rs \<Longrightarrow>
   \<exists>idx j. BloomFilter_hash H self item i = Inr idx \<and>
           norm_index (bloom_filter self) idx = Inr j \<and> bloom_filter self' ! j"
proof (induction rs arbitrary: self)
  case Nil
  then show ?case by simp
next
  case (Cons i' rs)
  show ?case
  proof (cases "BloomFilter_hash H self item i'")
    case (Inl e')
    with Cons.prems show ?thesis by simp
  next
    case (Inr idx)
    show ?thesis
    proof (cases "setitem_1 (bloom_filter self) idx")
      case (Inl e')
      with Inr Cons.prems show ?thesis by simp
    next
      case bits: (Inr bits)
      let ?s = "self\<lparr>bloom_filter := bits\<rparr>"
      from bits Inr Cons.prems
      have run: "add_rounds H ?s item rs = (None, self')" by simp
      from setitem_1_Inr [OF bits] obtain j' where
        j': "norm_index (bloom_filter self) idx = Inr j'"
            "j' < length (bloom_filter self)" "bits = (bloom_filter self)[j' := True]" by blast
      show ?thesis
      proof (cases "i = i'")
        case True
        from j' have "j' < length (bloom_filter ?s)" "bloom_filter ?s ! j'" by simp_all
        with add_rounds_mono [OF run] have "bloom_filter self' ! j'" by blast
        with True Inr j'(1) show ?thesis by simp
      next
        case False
        with Cons.prems(2) have "i \<in> set rs" by simp
        from Cons.IH [OF run this] obtain idx2 j2 where
          h: "BloomFilter_hash H ?s item i = Inr idx2"
             "norm_index (bloom_filter ?s) idx2 = Inr j2" "bloom_filter self' ! j2" by blast
        have "BloomFilter_hash H self item i = BloomFilter_hash H ?s item i"
          by (rule BloomFilter_hash_cong) simp_all
        moreover have "norm_index (bloom_filter self) idx2 = norm_index (bloom_filter ?s) idx2"
          using j'(3) by (intro norm_index_cong) simp
        ultimately show ?thesis using h by simp
      qed
    qed
  qed
qed

lemma check_rounds_all_set:
  "(\<And>i. i \<in> set rs \<Longrightarrow>
      \<exists>idx j. BloomFilter_hash H self item i = Inr idx \<and>
              norm_index (bloom_filter self) idx = Inr j \<and> bloom_filter self ! j) \<Longrightarrow>
   check_rounds H self item rs = Inr False"
proof (induction rs)
  case Nil
  then show ?case by simp
next
  case (Cons i rs)
  from Cons.prems [of i] obtain idx j where
    "BloomFilter_hash H self item i = Inr idx"
    "norm_index (bloom_filter self) idx = Inr j" "bloom_filter self ! j" by auto
  moreover have "check_rounds H self item rs = Inr False"
    using Cons.prems by (intro Cons.IH) simp
  ultimately show ?case by (simp add: getitem_def)
qed

lemma add_to_filter_shape:
  "size_bf (snd (add_to_filter H self item)) = size_bf self"
  "hash_functions (snd (add_to_filter H self item)) = hash_functions self"
  "number_hash_functions (snd (add_to_filter H self item)) = number_hash_functions self"
  "number_expected_elements (snd (add_to_filter H self item)) = number_expected_elements self"
  "length (bloom_filter (snd (add_to_filter H self item))) = length (bloom_filter self)"
  using add_rounds_shape [of H self item "py_range (number_hash_functions self)"
          "fst (add_to_filter H self item)" "snd (add_to_filter H self item)"]
  by (simp_all add: add_to_filter_def)

lemma add_to_filter_mono:
  "j < length (bloom_filter self) \<Longrightarrow> bloom_filter self ! j \<Longrightarrow>
   bloom_filter (snd (add_to_filter H self item)) ! j"
  using add_rounds_mono [of H self item "py_range (number_hash_functions self)"
          "fst (add_to_filter H self item)" "snd (add_to_filter H self item)" j]
  by (simp add: add_to_filter_def)

lemma add_all_shape:
  "size_bf (add_all H self keys) = size_bf self \<and>
   hash_functions (add_all H self keys) = hash_functions self \<and>
   number_hash_functions (add_all H self keys) = number_hash_functions self \<and>
   number_expected_elements (add_all H self keys) = number_expected_elements self \<and>
   length (bloom_filter (add_all H self keys)) = length (bloom_filter self)"
  by (induction keys arbitrary: self) (simp_all add: add_to_filter_shape)

lemma add_all_mono:
  "j < length (bloom_filter self) \<Longrightarrow> bloom_filter self ! j \<Longrightarrow>
   bloom_filter (add_all H self keys) ! j"
  by (induction keys arbitrary: self) (simp_all add: add_to_filter_shape add_to_filter_mono)

lemma add_then_check:
  assumes "fst (add_to_filter H self x) = None"
  shows "check_is_not_in_filter H (add_all H (snd (add_to_filter H self x)) ys) x = Inr False"
proof -
  let ?s1 = "snd (add_to_filter H self x)"
  let ?s2 = "add_all H ?s1 ys"
  let ?rs = "py_range (number_hash_functions self)"
  from assms have run: "add_rounds H self x ?rs = (None, ?s1)"
    by (simp add: add_to_filter_def prod_eq_iff)
  have shape1: "size_bf ?s1 = size_bf self" "hash_functions ?s1 = hash_functions self"
    "number_hash_functions ?s1 = number_hash_functions self"
    "length (bloom_filter ?s1) = length (bloom_filter self)"
    by (simp_all add: add_to_filter_shape)
  have shape2: "size_bf ?s2 = size_bf ?s1" "hash_functions ?s2 = hash_functions ?s1"
    "number_hash_functions ?s2 = number_hash_functions ?s1"
    "length (bloom_filter ?s2) = length (bloom_filter ?s1)"
    using add_all_shape [of H ?s1 ys] by simp_all
  have "check_rounds H ?s2 x ?rs = Inr False"
  proof (rule check_rounds_all_set)
    fix i assume "i \<in> set ?rs"
    from add_rounds_sets [OF run this] obtain idx j where
      h: "BloomFilter_hash H self x i = Inr idx"
         "norm_index (bloom_filter self) idx = Inr j" "bloom_filter ?s1 ! j" by blast
    from h(2) have jl: "j < length (bloom_filter ?s1)"
      using norm_index_less shape1(4) by simp
    from jl h(3) have "bloom_filter ?s2 ! j" by (rule add_all_mono)
    moreover have "BloomFilter_hash H ?s2 x i = BloomFilter_hash H self x i"
      by (rule BloomFilter_hash_cong) (simp_all add: shape1 shape2)
    moreover have "norm_index (bloom_filter ?s2) idx = norm_index (bloom_filter self) idx"
      by (rule norm_index_cong) (simp add: shape1 shape2)
    ultimately show "\<exists>idx j. BloomFilter_hash H ?s2 x i = Inr idx \<and>
              norm_index (bloom_filter ?s2) idx = Inr j \<and> bloom_filter ?s2 ! j"
      using h by simp
  qed
  then show ?thesis by (simp add: check_is_not_in_filter_def shape1 shape2)
qed


lemma run_adds: "snd (run H (map Add ys) (Some bf)) = Some (add_all H bf ys)"
  by (induction ys arbitrary: bf) (simp_all add: add_item_def split_beta split: option.splits)

lemma add_item_Some:
  "add_item H key (Some bf) =
     (case fst (add_to_filter H bf key) of None \<Rightarrow> Inr (Added key) | Some e \<Rightarrow> Inl e,
      Some (snd (add_to_filter H bf key)))"
  by (simp add: add_item_def split_beta split: option.splits)

subsection \<open>C1: no false negatives\<close>

text \<open>
  Claim C1: whatever the instance held before (so whatever was added before), once
  \<open>add_to_filter\<close> has completed for \<open>x\<close>, and after any further keys have been added
  (completed or not), \<open>check_is_not_in_filter\<close> returns \<open>False\<close> for \<open>x\<close>; at the
  endpoints, \<open>/check\<close> answers that the key may be present.
\<close>

theorem no_false_negatives:
  assumes "fst (add_to_filter H self x) = None"
  shows "check_is_not_in_filter H (add_all H (snd (add_to_filter H self x)) ys) x = Inr False
       \<and> fst (add_item H x (Some self)) = Inr (Added x)
       \<and> fst (check_item H x (snd (run H (map Add ys) (snd (add_item H x (Some self)))))) =
           Inr (PossiblyPresent x)"
  using add_then_check [OF assms, of ys] assms
  by (simp add: add_item_Some run_adds check_item_def)

lemma add_x_example: "fst (add_to_filter toy_hashlib example_filter ''x'') = None"
  by code_simp

text \<open>An instance built by the constructor, one key added, one more added after it.\<close>

theorem no_false_negatives_witness:
  "fst (add_to_filter toy_hashlib example_filter ''x'') = None
   \<and> check_is_not_in_filter toy_hashlib
        (add_all toy_hashlib (snd (add_to_filter toy_hashlib example_filter ''x'')) [''y''])
        ''x'' = Inr False
   \<and> fst (add_item toy_hashlib ''x'' (Some example_filter)) = Inr (Added ''x'')
   \<and> fst (check_item toy_hashlib ''x''
        (snd (run toy_hashlib (map Add [''y''])
           (snd (add_item toy_hashlib ''x'' (Some example_filter)))))) =
       Inr (PossiblyPresent ''x'')"
proof -
  note a = add_x_example
  show ?thesis using no_false_negatives [OF a, of "[''y'']"] a by blast
qed

subsection \<open>C7: adding the same key twice\<close>

lemma add_rounds_again:
  "add_rounds H self item rs = (e, self') \<Longrightarrow>
   size_bf t = size_bf self \<Longrightarrow> hash_functions t = hash_functions self \<Longrightarrow>
   length (bloom_filter t) = length (bloom_filter self) \<Longrightarrow>
   (\<And>j. j < length (bloom_filter t) \<Longrightarrow> bloom_filter self' ! j \<Longrightarrow> bloom_filter t ! j) \<Longrightarrow>
   add_rounds H t item rs = (e, t)"
proof (induction rs arbitrary: self)
  case Nil
  then show ?case by simp
next
  case (Cons i rs)
  have hash: "BloomFilter_hash H t item i = BloomFilter_hash H self item i"
    using Cons.prems(2,3) by (intro BloomFilter_hash_cong) simp_all
  show ?case
  proof (cases "BloomFilter_hash H self item i")
    case (Inl e')
    with Cons.prems(1) hash show ?thesis by simp
  next
    case (Inr idx)
    have ni: "norm_index (bloom_filter t) idx = norm_index (bloom_filter self) idx"
      using Cons.prems(4) by (rule norm_index_cong)
    show ?thesis
    proof (cases "setitem_1 (bloom_filter self) idx")
      case (Inl e')
      then have "setitem_1 (bloom_filter t) idx = Inl e'"
        using ni by (simp add: setitem_1_def split: sum.splits)
      with Inl Inr Cons.prems(1) hash show ?thesis by simp
    next
      case bits: (Inr bits)
      let ?s = "self\<lparr>bloom_filter := bits\<rparr>"
      from bits Inr Cons.prems(1)
      have run: "add_rounds H ?s item rs = (e, self')" by simp
      from setitem_1_Inr [OF bits] obtain j where
        j: "norm_index (bloom_filter self) idx = Inr j"
           "j < length (bloom_filter self)" "bits = (bloom_filter self)[j := True]" by blast
      from j have "j < length (bloom_filter ?s)" "bloom_filter ?s ! j" by simp_all
      with add_rounds_mono [OF run] have "bloom_filter self' ! j" by blast
      with Cons.prems(4,5) j(2) have tj: "bloom_filter t ! j" by simp
      have "(bloom_filter t)[j := True] = bloom_filter t"
        using tj j(2) Cons.prems(4) by (simp add: list_update_same_conv)
      then have set_t: "setitem_1 (bloom_filter t) idx = Inr (bloom_filter t)"
        using ni j(1) by (simp add: setitem_1_def)
      have "add_rounds H t item rs = (e, t)"
        using run Cons.prems(2,3,4,5) j(3) by (intro Cons.IH [of ?s]) simp_all
      with hash Inr set_t show ?thesis by simp
    qed
  qed
qed

text \<open>
  Claim C7: from every state of an instance, a second \<open>add_to_filter\<close> of the same key
  leaves the instance, and so its bit array, exactly as the first left it, and ends the
  way the first did.
\<close>

theorem add_idempotent:
  "add_to_filter H (snd (add_to_filter H self x)) x =
     (fst (add_to_filter H self x), snd (add_to_filter H self x))"
proof -
  let ?s1 = "snd (add_to_filter H self x)"
  let ?rs = "py_range (number_hash_functions self)"
  have run: "add_rounds H self x ?rs = (fst (add_to_filter H self x), ?s1)"
    by (simp add: add_to_filter_def)
  have "add_rounds H ?s1 x ?rs = (fst (add_to_filter H self x), ?s1)"
    using run by (rule add_rounds_again) (simp_all add: add_to_filter_shape)
  then show ?thesis
    by (simp add: add_to_filter_def [of H ?s1] add_to_filter_shape)
qed

subsection \<open>C8: determinism\<close>

lemma init_bloom_filter_success_indep:
  "fst (init_bloom_filter H c g1) = Inr Initialized \<Longrightarrow>
   init_bloom_filter H c g2 = init_bloom_filter H c g1"
  by (auto simp: init_bloom_filter_def split: sum.splits error.splits)

lemma digests_computed_iff:
  "digests_computed H names k item \<longleftrightarrow>
     (\<forall>r<k. \<not> isl (hexdigest_int H (names ! (r mod length names)) (item @ str_nat r)))"
  by (auto simp: digests_computed_def list_all_iff)

lemma hash_computed:
  assumes "size_bf self = m" and "0 < m" and "hash_functions self = names" and "names \<noteq> []"
    and "\<not> isl (hexdigest_int H (names ! (r mod length names)) (item @ str_nat r))"
  shows "BloomFilter_hash H self item r = Inr (int (spec_index H names m item r))"
    and "spec_index H names m item r < nat m"
proof -
  from assms(5) obtain d where
    d: "hexdigest_int H (names ! (r mod length names)) (item @ str_nat r) = Inr d"
    by (cases "hexdigest_int H (names ! (r mod length names)) (item @ str_nat r)") simp_all
  have nn: "0 \<le> int d mod m" using assms(2) by simp
  have lt: "int d mod m < m" using assms(2) by simp
  show "BloomFilter_hash H self item r = Inr (int (spec_index H names m item r))"
    using assms(1-4) d nn by (simp add: BloomFilter_hash_def hash_func_def spec_index_def)
  show "spec_index H names m item r < nat m"
    using nn lt assms(2) by (simp add: spec_index_def d nat_less_iff)
qed

lemma norm_index_nat:
  "j < length bits \<Longrightarrow> norm_index bits (int j) = Inr j"
  by (simp add: norm_index_def)

lemma fold_set_length:
  "length (fold (\<lambda>r b. b[f r := True]) rs b) = length b"
  by (induction rs arbitrary: b) simp_all

lemma set_True_nth: "j < length b \<Longrightarrow> b[i := True] ! j = (b ! j \<or> i = j)"
  by (cases "i = j") simp_all

lemma fold_set_nth:
  "j < length b \<Longrightarrow>
   fold (\<lambda>r b. b[f r := True]) rs b ! j = (b ! j \<or> (\<exists>r\<in>set rs. f r = j))"
proof (induction rs arbitrary: b)
  case Nil
  then show ?case by simp
next
  case (Cons a rs)
  from Cons.prems have "j < length (b[f a := True])" by simp
  from Cons.IH [OF this] Cons.prems show ?case
    by (auto simp: set_True_nth)
qed

lemma list_ex_upt: "list_ex P [0 ..< k] \<longleftrightarrow> (\<exists>r<k. P r)"
  by (auto simp: list_ex_iff)

lemma list_all_upt: "list_all P [0 ..< k] \<longleftrightarrow> (\<forall>r<k. P r)"
  by (auto simp: list_all_iff)

lemma spec_bits_nth:
  "j < nat m \<Longrightarrow>
   spec_bits H names m k keys ! j =
     (\<exists>key\<in>set keys. \<exists>r<k. spec_index H names m key r = j)"
  unfolding spec_bits_def list_ex_upt by (simp add: list_ex_iff)

lemma spec_check_iff:
  "spec_check H names m k keys q =
     (if \<forall>r<k. \<exists>key\<in>set keys. \<exists>r'<k.
            spec_index H names m key r' = spec_index H names m q r
      then PossiblyPresent q else DefinitelyAbsent q)"
  unfolding spec_check_def list_all_upt list_ex_upt by (simp add: list_ex_iff)

lemma add_rounds_exact:
  assumes "size_bf self = m" and "0 < m" and "hash_functions self = names" and "names \<noteq> []"
    and "length (bloom_filter self) = nat m"
    and "\<And>r. r \<in> set rs \<Longrightarrow>
           \<not> isl (hexdigest_int H (names ! (r mod length names)) (item @ str_nat r))"
  shows "add_rounds H self item rs =
           (None, self\<lparr>bloom_filter :=
                         fold (\<lambda>r b. b[spec_index H names m item r := True]) rs
                           (bloom_filter self)\<rparr>)"
  using assms
proof (induction rs arbitrary: self)
  case Nil
  then show ?case by simp
next
  case (Cons r rs)
  let ?j = "spec_index H names m item r"
  let ?s = "self\<lparr>bloom_filter := (bloom_filter self)[?j := True]\<rparr>"
  have c: "\<not> isl (hexdigest_int H (names ! (r mod length names)) (item @ str_nat r))"
    using Cons.prems(6) by simp
  note h = hash_computed [OF Cons.prems(1-4) c]
  have n: "norm_index (bloom_filter self) (int ?j) = Inr ?j"
    using h(2) Cons.prems(5) by (intro norm_index_nat) simp
  have st: "setitem_1 (bloom_filter self) (int ?j) = Inr ((bloom_filter self)[?j := True])"
    by (simp add: setitem_1_def n)
  have "add_rounds H ?s item rs =
          (None, ?s\<lparr>bloom_filter :=
                       fold (\<lambda>r b. b[spec_index H names m item r := True]) rs
                         (bloom_filter ?s)\<rparr>)"
    using Cons.prems by (intro Cons.IH) simp_all
  then show ?case by (simp add: h(1) st)
qed

lemma add_to_filter_exact:
  assumes "size_bf self = m" and "0 < m" and "hash_functions self = names" and "names \<noteq> []"
    and "length (bloom_filter self) = nat m"
    and "digests_computed H names (nat (number_hash_functions self)) item"
  shows "add_to_filter H self item =
           (None, self\<lparr>bloom_filter :=
                         fold (\<lambda>r b. b[spec_index H names m item r := True])
                           [0 ..< nat (number_hash_functions self)] (bloom_filter self)\<rparr>)"
  unfolding add_to_filter_def py_range_def
  using assms(1-5)
proof (rule add_rounds_exact)
  fix r assume "r \<in> set [0 ..< nat (number_hash_functions self)]"
  then show "\<not> isl (hexdigest_int H (names ! (r mod length names)) (item @ str_nat r))"
    using assms(6) by (simp add: digests_computed_iff)
qed

lemma add_all_exact:
  assumes "size_bf self = m" and "0 < m" and "hash_functions self = names" and "names \<noteq> []"
    and "length (bloom_filter self) = nat m" and "number_hash_functions self = k"
    and "\<And>key. key \<in> set keys \<Longrightarrow> digests_computed H names (nat k) key"
    and "j < nat m"
  shows "bloom_filter (add_all H self keys) ! j =
           (bloom_filter self ! j
            \<or> (\<exists>key\<in>set keys. \<exists>r<nat k. spec_index H names m key r = j))"
  using assms
proof (induction keys arbitrary: self)
  case Nil
  then show ?case by simp
next
  case (Cons key keys)
  let ?s = "snd (add_to_filter H self key)"
  have dc: "digests_computed H names (nat (number_hash_functions self)) key"
    using Cons.prems(6,7) by simp
  have ex: "bloom_filter ?s =
              fold (\<lambda>r b. b[spec_index H names m key r := True]) [0 ..< nat k]
                (bloom_filter self)"
    using add_to_filter_exact [OF Cons.prems(1-5) dc] Cons.prems(6) by simp
  have one: "bloom_filter ?s ! j =
               (bloom_filter self ! j \<or> (\<exists>r<nat k. spec_index H names m key r = j))"
    using Cons.prems(5,8) by (auto simp: ex fold_set_nth)
  have "bloom_filter (add_all H ?s keys) ! j =
           (bloom_filter ?s ! j
            \<or> (\<exists>key\<in>set keys. \<exists>r<nat k. spec_index H names m key r = j))"
    using Cons.prems by (intro Cons.IH) (simp_all add: add_to_filter_shape)
  with one show ?case by auto
qed

lemma add_all_fresh:
  assumes "size_bf self = m" and "0 < m" and "hash_functions self = names" and "names \<noteq> []"
    and "bloom_filter self = replicate (nat m) False" and "number_hash_functions self = k"
    and "\<And>key. key \<in> set keys \<Longrightarrow> digests_computed H names (nat k) key"
  shows "bloom_filter (add_all H self keys) = spec_bits H names m (nat k) keys"
proof (rule nth_equalityI)
  have len: "length (bloom_filter (add_all H self keys)) = nat m"
    using add_all_shape [of H self keys] assms(5) by simp
  then show "length (bloom_filter (add_all H self keys)) = length (spec_bits H names m (nat k) keys)"
    by (simp add: spec_bits_def)
  fix j assume "j < length (bloom_filter (add_all H self keys))"
  with len have j: "j < nat m" by simp
  have l5: "length (bloom_filter self) = nat m" using assms(5) by simp
  have "bloom_filter (add_all H self keys) ! j =
          (bloom_filter self ! j
            \<or> (\<exists>key\<in>set keys. \<exists>r<nat k. spec_index H names m key r = j))"
    using assms(1-4) l5 assms(6,7) j by (rule add_all_exact)
  then show "bloom_filter (add_all H self keys) ! j = spec_bits H names m (nat k) keys ! j"
    using j assms(5) by (simp add: spec_bits_nth)
qed

lemma check_rounds_exact:
  assumes "size_bf self = m" and "0 < m" and "hash_functions self = names" and "names \<noteq> []"
    and "length (bloom_filter self) = nat m"
    and "\<And>r. r \<in> set rs \<Longrightarrow>
           \<not> isl (hexdigest_int H (names ! (r mod length names)) (q @ str_nat r))"
  shows "check_rounds H self q rs =
           Inr (\<exists>r\<in>set rs. \<not> bloom_filter self ! spec_index H names m q r)"
  using assms(6)
proof (induction rs)
  case Nil
  then show ?case by simp
next
  case (Cons r rs)
  let ?j = "spec_index H names m q r"
  have c: "\<not> isl (hexdigest_int H (names ! (r mod length names)) (q @ str_nat r))"
    using Cons.prems by simp
  note h = hash_computed [OF assms(1-4) c]
  have n: "norm_index (bloom_filter self) (int ?j) = Inr ?j"
    using h(2) assms(5) by (intro norm_index_nat) simp
  have g: "getitem (bloom_filter self) (int ?j) = Inr (bloom_filter self ! ?j)"
    by (simp add: getitem_def n)
  have "check_rounds H self q rs =
           Inr (\<exists>r\<in>set rs. \<not> bloom_filter self ! spec_index H names m q r)"
    using Cons.prems by (intro Cons.IH) simp
  then show ?case by (simp add: h(1) g)
qed

lemma check_after_adds:
  assumes "size_bf self = m" and "0 < m" and "hash_functions self = names" and "names \<noteq> []"
    and "bloom_filter self = replicate (nat m) False" and "number_hash_functions self = k"
    and "\<And>key. key \<in> set (q # keys) \<Longrightarrow> digests_computed H names (nat k) key"
  shows "check_item H q (Some (add_all H self keys)) =
           (Inr (spec_check H names m (nat k) keys q), Some (add_all H self keys))"
proof -
  let ?s = "add_all H self keys"
  note sh = add_all_shape [of H self keys]
  have bits: "bloom_filter ?s = spec_bits H names m (nat k) keys"
    using assms(1-6) by (rule add_all_fresh) (simp add: assms(7))
  have len: "length (bloom_filter ?s) = nat m" using sh assms(5) by simp
  have dq: "digests_computed H names (nat k) q" using assms(7) by simp
  have cr: "check_rounds H ?s q [0 ..< nat k] =
          Inr (\<exists>r\<in>set [0 ..< nat k]. \<not> bloom_filter ?s ! spec_index H names m q r)"
  proof (rule check_rounds_exact [of ?s m names])
    show "size_bf ?s = m" "hash_functions ?s = names" using sh assms(1,3) by simp_all
    show "0 < m" "names \<noteq> []" by (rule assms)+
    show "length (bloom_filter ?s) = nat m" by (rule len)
    fix r assume "r \<in> set [0 ..< nat k]"
    then show "\<not> isl (hexdigest_int H (names ! (r mod length names)) (q @ str_nat r))"
      using dq by (simp add: digests_computed_iff)
  qed
  have idx: "spec_index H names m q r < nat m" if "r < nat k" for r
  proof -
    have "\<not> isl (hexdigest_int H (names ! (r mod length names)) (q @ str_nat r))"
      using dq that by (simp add: digests_computed_iff)
    with assms(1-4) show ?thesis by (rule hash_computed(2))
  qed
  have nth: "bloom_filter ?s ! spec_index H names m q r =
               (\<exists>key\<in>set keys. \<exists>r'<nat k.
                  spec_index H names m key r' = spec_index H names m q r)"
    if "r < nat k" for r
    using idx [OF that] by (simp add: bits spec_bits_nth)
  have "(\<exists>r\<in>set [0 ..< nat k]. \<not> bloom_filter ?s ! spec_index H names m q r) \<longleftrightarrow>
        (\<exists>r<nat k. \<not> bloom_filter ?s ! spec_index H names m q r)"
    by (simp add: Bex_def)
  also have "\<dots> \<longleftrightarrow> \<not> (\<forall>r<nat k. \<exists>key\<in>set keys. \<exists>r'<nat k.
                  spec_index H names m key r' = spec_index H names m q r)"
    using nth by blast
  also have "\<dots> \<longleftrightarrow> spec_check H names m (nat k) keys q = DefinitelyAbsent q"
    by (simp add: spec_check_iff)
  finally have "(\<exists>r\<in>set [0 ..< nat k]. \<not> bloom_filter ?s ! spec_index H names m q r) \<longleftrightarrow>
        spec_check H names m (nat k) keys q = DefinitelyAbsent q" .
  moreover have "spec_check H names m (nat k) keys q = DefinitelyAbsent q
                 \<or> spec_check H names m (nat k) keys q = PossiblyPresent q"
    by (simp add: spec_check_def)
  moreover have "number_hash_functions ?s = k" using sh assms(6) by simp
  ultimately show ?thesis
    using cr by (auto simp: check_item_def check_is_not_in_filter_def py_range_def)
qed

text \<open>
  Claim C8: two runs that start from any two values of the global, are configured by the
  same accepted \<open>/init\<close> and then receive the same requests give the same responses, the
  answers of \<open>/check\<close> among them, and end with the same instance, bit for bit. More than
  that, with a positive size, a non-empty list of algorithms and digests that are
  computed, the bit array after the keys have been added is \<open>spec_bits\<close> and the answer
  of \<open>/check\<close> is \<open>spec_check\<close>: functions of the configuration, the keys added and the
  key asked for, and of nothing else.
\<close>

theorem determinism:
  assumes "fst (init_bloom_filter H c g1) = Inr Initialized"
  shows "run H (Init c # rs) g1 = run H (Init c # rs) g2
       \<and> (0 < cfg_size c \<and> cfg_hash_function_names c \<noteq> [] \<and>
          optimal_number_hash_functions (cfg_size c) (cfg_number_expected_elements c) = Inr k \<and>
          list_all (digests_computed H (cfg_hash_function_names c) (nat k)) (q # keys) \<longrightarrow>
            map_option bloom_filter (snd (run H (Init c # map Add keys) g2)) =
              Some (spec_bits H (cfg_hash_function_names c) (cfg_size c) (nat k) keys)
          \<and> fst (check_item H q (snd (run H (Init c # map Add keys) g2))) =
              Inr (spec_check H (cfg_hash_function_names c) (cfg_size c) (nat k) keys q))"
proof -
  let ?names = "cfg_hash_function_names c"
  let ?m = "cfg_size c"
  have eq: "init_bloom_filter H c g2 = init_bloom_filter H c g1"
    using assms by (rule init_bloom_filter_success_indep)
  from assms obtain bf where
    bf: "BloomFilter_init H ?m (cfg_number_expected_elements c) (Some ?names) = Inr bf"
    and i: "init_bloom_filter H c g1 = (Inr Initialized, Some bf)"
    by (auto simp: init_bloom_filter_def split: sum.splits error.splits)
  note a = BloomFilter_init_Inr [OF bf]
  have r: "snd (run H (Init c # map Add keys) g2) = Some (add_all H bf keys)"
    using eq i run_adds [of H keys bf] by (simp add: split_beta)
  have 1: "run H (Init c # rs) g1 = run H (Init c # rs) g2" using eq by simp
  have 2: "map_option bloom_filter (snd (run H (Init c # map Add keys) g2)) =
              Some (spec_bits H ?names ?m (nat k) keys)
          \<and> fst (check_item H q (snd (run H (Init c # map Add keys) g2))) =
              Inr (spec_check H ?names ?m (nat k) keys q)"
    if h: "0 < ?m" "?names \<noteq> []"
      "optimal_number_hash_functions ?m (cfg_number_expected_elements c) = Inr k"
      "list_all (digests_computed H ?names (nat k)) (q # keys)"
  proof -
    have k: "number_hash_functions bf = k" using a(2) h(3) by simp
    have hf: "hash_functions bf = ?names" using a(6) by simp
    have dc: "digests_computed H ?names (nat k) key" if "key \<in> set (q # keys)" for key
      using h(4) that by (auto simp: list_all_iff)
    have dk: "digests_computed H ?names (nat k) key" if "key \<in> set keys" for key
      using dc that by simp
    have "bloom_filter (add_all H bf keys) = spec_bits H ?names ?m (nat k) keys"
      by (rule add_all_fresh [OF a(3) h(1) hf h(2) a(5) k dk])
    moreover have "check_item H q (Some (add_all H bf keys)) =
           (Inr (spec_check H ?names ?m (nat k) keys q), Some (add_all H bf keys))"
      by (rule check_after_adds [OF a(3) h(1) hf h(2) a(5) k dc])
    ultimately show ?thesis unfolding r by simp
  qed
  from 1 2 show ?thesis by blast
qed

text \<open>
  One run starts with no filter, the other with an instance already in place; one key
  is added and another one asked for.
\<close>

theorem determinism_witness:
  "fst (init_bloom_filter toy_hashlib example_config_1 None) = Inr Initialized
   \<and> run toy_hashlib (Init example_config_1 # [Add ''x'', Check ''x'', Check ''y'']) None =
     run toy_hashlib (Init example_config_1 # [Add ''x'', Check ''x'', Check ''y''])
       (Some example_filter)
   \<and> list_all (digests_computed toy_hashlib (cfg_hash_function_names example_config_1) (nat 1))
       [''y'', ''x'']
   \<and> map_option bloom_filter
       (snd (run toy_hashlib (Init example_config_1 # map Add [''x'']) (Some example_filter))) =
     Some [False, True, False, False, False, False, False, False, False, False]
   \<and> fst (check_item toy_hashlib ''y''
       (snd (run toy_hashlib (Init example_config_1 # map Add [''x''])
          (Some example_filter)))) =
     Inr (DefinitelyAbsent ''y'')"
proof -
  have a: "fst (init_bloom_filter toy_hashlib example_config_1 None) = Inr Initialized"
    by (simp add: init_bloom_filter_def BloomFilter_init_Some optimal_10_5 toy_hashlib_def
          example_config_1_def)
  have m: "0 < cfg_size example_config_1" and n: "cfg_hash_function_names example_config_1 \<noteq> []"
    and k: "optimal_number_hash_functions (cfg_size example_config_1)
              (cfg_number_expected_elements example_config_1) = Inr 1"
    by (simp_all add: example_config_1_def optimal_10_5)
  have dc: "list_all
              (digests_computed toy_hashlib (cfg_hash_function_names example_config_1) (nat 1))
              [''y'', ''x'']"
    by code_simp
  have e1: "spec_bits toy_hashlib (cfg_hash_function_names example_config_1)
              (cfg_size example_config_1) (nat 1) [''x''] =
            [False, True, False, False, False, False, False, False, False, False]"
    by code_simp
  have e2: "spec_check toy_hashlib (cfg_hash_function_names example_config_1)
              (cfg_size example_config_1) (nat 1) [''x''] ''y'' = DefinitelyAbsent ''y''"
    by code_simp
  note t = determinism [OF a, where rs = "[Add ''x'', Check ''x'', Check ''y'']"
      and ?g2.0 = "Some example_filter" and k = 1 and q = "''y''" and keys = "[''x'']"]
  from t have t1: "run toy_hashlib (Init example_config_1 # [Add ''x'', Check ''x'', Check ''y''])
        None =
     run toy_hashlib (Init example_config_1 # [Add ''x'', Check ''x'', Check ''y''])
       (Some example_filter)"
    by (rule conjunct1)
  from t m n k dc have t2: "map_option bloom_filter
       (snd (run toy_hashlib (Init example_config_1 # map Add [''x'']) (Some example_filter))) =
     Some (spec_bits toy_hashlib (cfg_hash_function_names example_config_1)
              (cfg_size example_config_1) (nat 1) [''x''])
    \<and> fst (check_item toy_hashlib ''y''
       (snd (run toy_hashlib (Init example_config_1 # map Add [''x''])
          (Some example_filter)))) =
     Inr (spec_check toy_hashlib (cfg_hash_function_names example_config_1)
              (cfg_size example_config_1) (nat 1) [''x''] ''y'')"
    by blast
  from a t1 dc t2 show ?thesis unfolding e1 e2 by blast
qed

subsection \<open>C4: the hash of a round\<close>

lemma str_nat_examples:
  "str_nat 0 = ''0''" "str_nat 7 = ''7''" "str_nat 10 = ''10''" "str_nat 120 = ''120''"
  by code_simp+




lemma py_range_Cons: "1 \<le> k \<Longrightarrow> py_range k = 0 # [1 ..< nat k]"
  by (simp add: py_range_def upt_conv_Cons)

lemma double_rnd_0: "double_rnd 0 = 0"
  by (simp add: double_rnd_def)

lemma round_half_even_0: "round_half_even 0 = 0"
  by (simp add: round_half_even_def)

lemma optimal_size_0: "optimal_number_hash_functions 0 n = Inr k \<Longrightarrow> k = 0"
  by (auto simp: optimal_number_hash_functions_def py_truediv_def float_mul_def double_rnd_0
        round_half_even_0 Let_def split: sum.splits if_splits)

lemma optimal_0_5: "optimal_number_hash_functions 0 5 = Inr 0"
  by code_simp

lemma py_truediv_10_5: "py_truediv 10 5 = Inr 2"
  by code_simp

subsection \<open>C3: which configurations \<open>/init\<close> refuses\<close>

text \<open>
  Claim C3 says that \<open>/init\<close> is refused whenever the capacity is not positive. Nothing
  in the constructor tests for zero: capacity 0 is accepted, with an empty bit array and
  no rounds.
\<close>

theorem configure_zero_capacity_counterexample:
  "init_bloom_filter toy_hashlib
     \<lparr>cfg_size = 0, cfg_number_expected_elements = 5, cfg_hash_function_names = [''md5'']\<rparr>
     None =
   (Inr Initialized,
    Some \<lparr>size_bf = 0, number_expected_elements = 5, bloom_filter = [],
          number_hash_functions = 0, hash_functions = [''md5'']\<rparr>)"
  by (simp add: init_bloom_filter_def BloomFilter_init_Some optimal_0_5 toy_hashlib_def)

lemma init_bloom_filter_cases:
  "init_bloom_filter H c g =
     (if cfg_size c < - (2 ^ 63) \<or> 2 ^ 63 \<le> cfg_size c then (Inl OverflowError, g)
      else if cfg_size c < 0 then (Inl ConfigurationError, g)
      else case py_truediv (cfg_size c) (cfg_number_expected_elements c) of
             Inl e \<Rightarrow> (Inl e, g)
           | Inr q \<Rightarrow>
               if set (cfg_hash_function_names c) \<subseteq> algorithms_available H
               then (Inr Initialized,
                     Some \<lparr>size_bf = cfg_size c,
                           number_expected_elements = cfg_number_expected_elements c,
                           bloom_filter = replicate (nat (cfg_size c)) False,
                           number_hash_functions = round_half_even (float_mul q math_log_2),
                           hash_functions = cfg_hash_function_names c\<rparr>)
               else (Inl ConfigurationError, g))"
  by (auto simp: init_bloom_filter_def BloomFilter_init_Some optimal_number_hash_functions_def
        py_truediv_def Let_def split: sum.splits error.splits)

text \<open>
  Claim C3, amended. For a size that \<open>bitarray\<close> can take as an index, that is in
  \<open>[-2^63, 2^63)\<close>, and a number of expected elements other than 0, \<open>/init\<close> raises the
  \<open>HTTPException\<close> for a bad configuration exactly when the size is negative or some name
  is not in \<open>hashlib.algorithms_available\<close>, and succeeds otherwise; a negative size in
  that range is refused whatever the other fields are; whatever \<open>/init\<close> raises, the
  global is left as it was, so with no filter before, \<open>/add\<close> still finds none.
\<close>

theorem configure_validation:
  "(- (2 ^ 63) \<le> cfg_size c \<and> cfg_size c < 2 ^ 63 \<and> cfg_number_expected_elements c \<noteq> 0 \<longrightarrow>
      (fst (init_bloom_filter H c g) = Inl ConfigurationError \<longleftrightarrow>
         cfg_size c < 0 \<or> \<not> set (cfg_hash_function_names c) \<subseteq> algorithms_available H)
    \<and> (fst (init_bloom_filter H c g) = Inl ConfigurationError
       \<or> fst (init_bloom_filter H c g) = Inr Initialized))
   \<and> (- (2 ^ 63) \<le> cfg_size c \<and> cfg_size c < 0 \<longrightarrow>
        fst (init_bloom_filter H c g) = Inl ConfigurationError)
   \<and> (\<forall>e. fst (init_bloom_filter H c g) = Inl e \<longrightarrow> snd (init_bloom_filter H c g) = g)
   \<and> (\<forall>e. fst (init_bloom_filter H c None) = Inl e \<longrightarrow>
         add_item H key (snd (init_bloom_filter H c None)) = (Inl UninitializedError, None))"
proof -
  have 1: "(fst (init_bloom_filter H c g) = Inl ConfigurationError \<longleftrightarrow>
         cfg_size c < 0 \<or> \<not> set (cfg_hash_function_names c) \<subseteq> algorithms_available H)
    \<and> (fst (init_bloom_filter H c g) = Inl ConfigurationError
       \<or> fst (init_bloom_filter H c g) = Inr Initialized)"
    if "- (2 ^ 63) \<le> cfg_size c" "cfg_size c < 2 ^ 63" "cfg_number_expected_elements c \<noteq> 0"
    using that py_truediv_in_range [OF that(3,1,2)]
    by (auto simp: init_bloom_filter_cases)
  have 2: "fst (init_bloom_filter H c g) = Inl ConfigurationError"
    if "- (2 ^ 63) \<le> cfg_size c" "cfg_size c < 0"
    using that by (simp add: init_bloom_filter_cases)
  have 3: "snd (init_bloom_filter H c g') = g'" if "fst (init_bloom_filter H c g') = Inl e"
    for e g'
    using that by (rule init_bloom_filter_fail_global)
  have 4: "add_item H key (snd (init_bloom_filter H c None)) = (Inl UninitializedError, None)"
    if "fst (init_bloom_filter H c None) = Inl e" for e
    using 3 [OF that] by (simp add: add_item_def)
  from 1 2 3 4 show ?thesis by blast
qed

text \<open>A name that \<open>hashlib\<close> does not know, with no filter before.\<close>

theorem configure_validation_witness:
  "- (2 ^ 63) \<le> (10::int) \<and> (10::int) < 2 ^ 63 \<and> (5::int) \<noteq> 0
   \<and> init_bloom_filter toy_hashlib
        \<lparr>cfg_size = 10, cfg_number_expected_elements = 5,
         cfg_hash_function_names = [''not-a-real-algorithm'']\<rparr> None =
       (Inl ConfigurationError, None)
   \<and> add_item toy_hashlib ''a''
        (snd (init_bloom_filter toy_hashlib
             \<lparr>cfg_size = 10, cfg_number_expected_elements = 5,
              cfg_hash_function_names = [''not-a-real-algorithm'']\<rparr> None)) =
       (Inl UninitializedError, None)"
proof -
  let ?c = "\<lparr>cfg_size = 10, cfg_number_expected_elements = 5,
             cfg_hash_function_names = [''not-a-real-algorithm'']\<rparr>"
  have d: "- (2 ^ 63) \<le> cfg_size ?c \<and> cfg_size ?c < 2 ^ 63
             \<and> cfg_number_expected_elements ?c \<noteq> 0"
    by simp
  have u: "\<not> set (cfg_hash_function_names ?c) \<subseteq> algorithms_available toy_hashlib"
    by (simp add: toy_hashlib_def)
  from configure_validation [of ?c toy_hashlib None "''a''"] d u
  have "fst (init_bloom_filter toy_hashlib ?c None) = Inl ConfigurationError"
    and "snd (init_bloom_filter toy_hashlib ?c None) = None"
    and "add_item toy_hashlib ''a'' (snd (init_bloom_filter toy_hashlib ?c None)) =
           (Inl UninitializedError, None)"
    by blast+
  then show ?thesis by (simp add: prod_eq_iff)
qed

subsection \<open>C10: an empty list of algorithms\<close>





subsection \<open>C6: a second \<open>/init\<close>\<close>

text \<open>
  Claim C6 says that after \<open>/init\<close>, \<open>/add\<close> of \<open>x\<close> and a second accepted \<open>/init\<close>,
  \<open>/check\<close> answers that \<open>x\<close> is absent. When the second configuration has capacity 1
  and 100 expected elements, the new instance has no round, the loop of
  \<open>check_is_not_in_filter\<close> is empty, and the answer is that \<open>x\<close> may be present. The
  digest is never called after the second \<open>/init\<close>, so this does not depend on it.
\<close>

theorem replacement_zero_rounds_counterexample:
  "run toy_hashlib
     [Init \<lparr>cfg_size = 10, cfg_number_expected_elements = 1,
            cfg_hash_function_names = [''md5'', ''sha256'']\<rparr>,
      Add ''x'',
      Init \<lparr>cfg_size = 1, cfg_number_expected_elements = 100,
            cfg_hash_function_names = [''md5'']\<rparr>,
      Check ''x''] None =
   ([Inr Initialized, Inr (Added ''x''), Inr Initialized, Inr (PossiblyPresent ''x'')],
    Some \<lparr>size_bf = 1, number_expected_elements = 100, bloom_filter = [False],
          number_hash_functions = 0, hash_functions = [''md5'']\<rparr>)"
proof -
  have 1: "init_bloom_filter toy_hashlib
             \<lparr>cfg_size = 10, cfg_number_expected_elements = 1,
              cfg_hash_function_names = [''md5'', ''sha256'']\<rparr> None =
           (Inr Initialized, Some example_filter)"
    by (simp add: init_bloom_filter_def BloomFilter_init_Some optimal_10_1 toy_hashlib_def
          example_filter_def)
  have 2: "fst (add_item toy_hashlib ''x'' (Some example_filter)) = Inr (Added ''x'')"
    by (simp add: add_item_Some add_x_example)
  have 3: "init_bloom_filter toy_hashlib
             \<lparr>cfg_size = 1, cfg_number_expected_elements = 100,
              cfg_hash_function_names = [''md5'']\<rparr> g =
           (Inr Initialized,
            Some \<lparr>size_bf = 1, number_expected_elements = 100, bloom_filter = [False],
                  number_hash_functions = 0, hash_functions = [''md5'']\<rparr>)" for g
    by (simp add: init_bloom_filter_def BloomFilter_init_Some optimal_1_100 toy_hashlib_def)
  have 4: "check_item toy_hashlib ''x''
             (Some \<lparr>size_bf = 1, number_expected_elements = 100, bloom_filter = [False],
                  number_hash_functions = 0, hash_functions = [''md5'']\<rparr>) =
           (Inr (PossiblyPresent ''x''),
            Some \<lparr>size_bf = 1, number_expected_elements = 100, bloom_filter = [False],
                  number_hash_functions = 0, hash_functions = [''md5'']\<rparr>)"
    by (simp add: check_item_def check_is_not_in_filter_def py_range_def)
  show ?thesis by (simp add: split_beta 1 2 3 4)
qed

lemma str_nat_0: "str_nat 0 = ''0''"
  by code_simp

lemma norm_index_in_range:
  "0 \<le> i \<Longrightarrow> i < int (length bits) \<Longrightarrow> norm_index bits i = Inr (nat i)"
  by (simp add: norm_index_def)

lemma fresh_check_absent:
  assumes "BloomFilter_init H sz n (Some names) = Inr bf"
    and "1 \<le> number_hash_functions bf" and "names \<noteq> []"
    and "hexdigest_int H (names ! 0) (x @ ''0'') = Inr d"
  shows "check_is_not_in_filter H bf x = Inr True"
proof -
  note a = BloomFilter_init_Inr [OF assms(1)]
  have "sz \<noteq> 0" using a(2) assms(2) optimal_size_0 [of n "number_hash_functions bf"] by auto
  with a(1) have sz: "0 < sz" by simp
  then have r: "0 \<le> int d mod sz" "int d mod sz < sz" by simp_all
  have h: "BloomFilter_hash H bf x 0 = Inr (int d mod sz)"
    using a(3,6) assms(3,4) sz by (simp add: BloomFilter_hash_def hash_func_def str_nat_0)
  have n: "norm_index (bloom_filter bf) (int d mod sz) = Inr (nat (int d mod sz))"
    using a(5) r sz by (intro norm_index_in_range) simp_all
  have "nat (int d mod sz) < nat sz" using r sz by simp
  then have g: "getitem (bloom_filter bf) (int d mod sz) = Inr False"
    using a(5) n by (simp add: getitem_def)
  show ?thesis
    using assms(2) h g by (simp add: check_is_not_in_filter_def py_range_Cons)
qed

text \<open>
  Claim C6, amended: after \<open>/init\<close>, \<open>/add\<close> of \<open>x\<close> and a second accepted \<open>/init\<close>, the
  bit array of the new instance is all zero, whatever the first instance held. \<open>/check\<close>
  of \<open>x\<close> then answers that \<open>x\<close> is absent when the new instance has at least one round,
  a non-empty list of algorithms and a first digest that is computed; it answers that
  \<open>x\<close> may be present when the new instance has no round.
\<close>

theorem replacement_discards_state:
  assumes "fst (init_bloom_filter H c2 g) = Inr Initialized"
    and "g = snd (run H [Init c1, Add x] g0)"
  shows "map_option bloom_filter (snd (init_bloom_filter H c2 g)) =
           Some (replicate (nat (cfg_size c2)) False)
       \<and> (1 \<le> the_k \<and> cfg_hash_function_names c2 \<noteq> [] \<and>
          optimal_number_hash_functions (cfg_size c2) (cfg_number_expected_elements c2) = Inr the_k \<and>
          hexdigest_int H (cfg_hash_function_names c2 ! 0) (x @ ''0'') = Inr d \<longrightarrow>
            fst (check_item H x (snd (init_bloom_filter H c2 g))) = Inr (DefinitelyAbsent x))
       \<and> (optimal_number_hash_functions (cfg_size c2) (cfg_number_expected_elements c2) = Inr the_k \<and>
          the_k \<le> 0 \<longrightarrow>
            fst (check_item H x (snd (init_bloom_filter H c2 g))) = Inr (PossiblyPresent x))"
proof -
  from assms(1) obtain bf where
    bf: "BloomFilter_init H (cfg_size c2) (cfg_number_expected_elements c2)
           (Some (cfg_hash_function_names c2)) = Inr bf"
    and i: "init_bloom_filter H c2 g = (Inr Initialized, Some bf)"
    by (auto simp: init_bloom_filter_def split: sum.splits error.splits)
  note a = BloomFilter_init_Inr [OF bf]
  have 1: "map_option bloom_filter (snd (init_bloom_filter H c2 g)) =
           Some (replicate (nat (cfg_size c2)) False)"
    using i a(5) by simp
  have 2: "fst (check_item H x (snd (init_bloom_filter H c2 g))) = Inr (DefinitelyAbsent x)"
    if "1 \<le> the_k" "cfg_hash_function_names c2 \<noteq> []"
      "optimal_number_hash_functions (cfg_size c2) (cfg_number_expected_elements c2) = Inr the_k"
      "hexdigest_int H (cfg_hash_function_names c2 ! 0) (x @ ''0'') = Inr d"
  proof -
    from that(1,3) a(2) have "1 \<le> number_hash_functions bf" by simp
    from fresh_check_absent [OF bf this that(2,4)] i show ?thesis
      by (simp add: check_item_def)
  qed
  have 3: "fst (check_item H x (snd (init_bloom_filter H c2 g))) = Inr (PossiblyPresent x)"
    if "optimal_number_hash_functions (cfg_size c2) (cfg_number_expected_elements c2) = Inr the_k"
      "the_k \<le> 0"
  proof -
    from that a(2) have "number_hash_functions bf \<le> 0" by simp
    then have "check_is_not_in_filter H bf x = Inr False"
      by (simp add: check_is_not_in_filter_def py_range_def)
    with i show ?thesis by (simp add: check_item_def)
  qed
  from 1 2 3 show ?thesis by blast
qed

text \<open>A second configuration with one round.\<close>

theorem replacement_discards_state_witness:
  "fst (init_bloom_filter toy_hashlib example_config_1
          (snd (run toy_hashlib [Init example_config_7, Add ''x''] None))) = Inr Initialized
   \<and> map_option bloom_filter
        (snd (init_bloom_filter toy_hashlib example_config_1
          (snd (run toy_hashlib [Init example_config_7, Add ''x''] None)))) =
       Some (replicate (nat (cfg_size example_config_1)) False)
   \<and> fst (check_item toy_hashlib ''x''
        (snd (init_bloom_filter toy_hashlib example_config_1
          (snd (run toy_hashlib [Init example_config_7, Add ''x''] None))))) =
       Inr (DefinitelyAbsent ''x'')"
proof -
  let ?g = "snd (run toy_hashlib [Init example_config_7, Add ''x''] None)"
  have a: "fst (init_bloom_filter toy_hashlib example_config_1 ?g) = Inr Initialized"
    by (simp add: init_bloom_filter_def BloomFilter_init_Some optimal_10_5 toy_hashlib_def
          example_config_1_def del: run.simps)
  have k: "optimal_number_hash_functions (cfg_size example_config_1)
             (cfg_number_expected_elements example_config_1) = Inr 1"
    by (simp add: example_config_1_def optimal_10_5)
  have n: "cfg_hash_function_names example_config_1 \<noteq> []"
    by (simp add: example_config_1_def)
  have d: "hexdigest_int toy_hashlib (cfg_hash_function_names example_config_1 ! 0)
             (''x'' @ ''0'') = Inr 6651"
    by code_simp
  from replacement_discards_state [OF a refl, where the_k = 1 and d = 6651] k n d a
  show ?thesis by simp
qed

end
